theory Spec2Isabelle
  imports Main "HOL-Library.AList"
begin

section \<open>JavaScript values\<close>

text \<open>
  The values that reach the pool from outside (constructor options, parsed response
  bodies) are JavaScript values. Numbers are the integers; an object is its list of
  properties, read by the first binding of a name.
\<close>

datatype jsval =
    Undefined
  | Null
  | JBool bool
  | JNum int
  | JStr string
  | JArr "jsval list"
  | JObj "(string \<times> jsval) list"

datatype js_error = TypeError

text \<open>Truthiness, as \<^verbatim>\<open>||\<close>, \<^verbatim>\<open>&&\<close>, \<^verbatim>\<open>?:\<close> and \<^verbatim>\<open>if\<close> test it.\<close>

fun truthy :: "jsval \<Rightarrow> bool" where
  "truthy Undefined = False"
| "truthy Null = False"
| "truthy (JBool b) = b"
| "truthy (JNum n) = (n \<noteq> 0)"
| "truthy (JStr s) = (s \<noteq> [])"
| "truthy (JArr xs) = True"
| "truthy (JObj kvs) = True"

text \<open>
  Reading a property \<^verbatim>\<open>v.name\<close>: a TypeError on \<^verbatim>\<open>undefined\<close> and \<^verbatim>\<open>null\<close>,
  the bound value on an object, \<^verbatim>\<open>length\<close> on arrays and strings, and
  \<^verbatim>\<open>undefined\<close> for every name a value does not have.
\<close>

fun get_prop :: "jsval \<Rightarrow> string \<Rightarrow> js_error + jsval" where
  "get_prop Undefined name = Inl TypeError"
| "get_prop Null name = Inl TypeError"
| "get_prop (JObj kvs) name = Inr (case map_of kvs name of None \<Rightarrow> Undefined | Some v \<Rightarrow> v)"
| "get_prop (JArr xs) name = Inr (if name = ''length'' then JNum (int (length xs)) else Undefined)"
| "get_prop (JStr s) name = Inr (if name = ''length'' then JNum (int (length s)) else Undefined)"
| "get_prop (JBool b) name = Inr Undefined"
| "get_prop (JNum n) name = Inr Undefined"

section \<open>Strings\<close>

text \<open>\<^verbatim>\<open>s.split(c)\<close> for a one-character separator: never empty, \<^verbatim>\<open>"".split(":")\<close> is \<^verbatim>\<open>[""]\<close>.\<close>

fun js_split :: "char \<Rightarrow> string \<Rightarrow> string list" where
  "js_split c [] = [[]]"
| "js_split c (x # xs) =
     (if x = c then [] # js_split c xs
      else (case js_split c xs of [] \<Rightarrow> [[x]] | p # ps \<Rightarrow> (x # p) # ps))"

text \<open>\<^verbatim>\<open>xs[i]\<close> of an array: \<^verbatim>\<open>undefined\<close> (here \<open>None\<close>) past the end.\<close>

fun js_index :: "'a list \<Rightarrow> nat \<Rightarrow> 'a option" where
  "js_index [] i = None"
| "js_index (x # xs) 0 = Some x"
| "js_index (x # xs) (Suc i) = js_index xs i"

text \<open>
  The destructuring \<^verbatim>\<open>const [ip, port] = proxy.split(':')\<close>: the first two parts,
  \<^verbatim>\<open>undefined\<close> where the string has no such part.
\<close>

definition split_ip_port :: "string \<Rightarrow> string option \<times> string option" where
  "split_ip_port proxy =
     (let parts = js_split (CHR '':'') proxy in (js_index parts 0, js_index parts 1))"

text \<open>\<^verbatim>\<open>s.includes(sub)\<close>: \<open>sub\<close> occurs in \<open>s\<close> at some position.\<close>

fun str_includes :: "string \<Rightarrow> string \<Rightarrow> bool" where
  "str_includes [] sub = (sub = [])"
| "str_includes (c # cs) sub = (take (length sub) (c # cs) = sub \<or> str_includes cs sub)"

section \<open>Configuration\<close>

datatype option_name =
    TargetCount | BatchSize | TestTimeout | RequestTimeout | TargetUrl
  | ConcurrentRequests | MinThreshold | CheckInterval | ProxyProtocol
  | MaxRefillAttempts | RetryDelay | UseCache | CacheExpiry

text \<open>The defaults of the constructor, as its thirteen assignments give them.\<close>

fun default_value :: "option_name \<Rightarrow> jsval" where
  "default_value TargetCount = JNum 20"
| "default_value BatchSize = JNum 20"
| "default_value TestTimeout = JNum 5000"
| "default_value RequestTimeout = JNum 10000"
| "default_value TargetUrl = JStr ''https://www.notion.so''"
| "default_value ConcurrentRequests = JNum 10"
| "default_value MinThreshold = JNum 5"
| "default_value CheckInterval = JNum 30000"
| "default_value ProxyProtocol = JStr ''http''"
| "default_value MaxRefillAttempts = JNum 20"
| "default_value RetryDelay = JNum 1000"
| "default_value UseCache = JBool True"
| "default_value CacheExpiry = JNum 3600000"

text \<open>
  The configuration part of the constructor. The options object is the function from
  an option's name to the value supplied for it, \<open>Undefined\<close> for a property the object
  does not have. Every option but \<^verbatim>\<open>useCache\<close> is \<^verbatim>\<open>options.x || default\<close>;
  \<^verbatim>\<open>useCache\<close> is \<^verbatim>\<open>options.useCache !== undefined ? options.useCache : true\<close>.
\<close>

definition constructor_config :: "(option_name \<Rightarrow> jsval) \<Rightarrow> option_name \<Rightarrow> jsval" where
  "constructor_config options name =
     (if name = UseCache
      then (if options UseCache \<noteq> Undefined then options UseCache else JBool True)
      else (if truthy (options name) then options name else default_value name))"

text \<open>
  The configuration the pool's methods read, at the types the constructor documents:
  counts as naturals, the cache lifetime in milliseconds. The timeouts, the target URL,
  the check interval and the retry delay only parameterise network calls, the timer and
  sleeps, which the environment below stands for.
\<close>

record config =
  targetCount :: nat
  batchSize :: nat
  concurrentRequests :: nat
  minThreshold :: nat
  proxyProtocol :: string
  maxRefillAttempts :: nat
  useCache :: bool
  cacheExpiry :: int

fun as_count :: "jsval \<Rightarrow> nat option" where
  "as_count (JNum n) = (if 0 \<le> n then Some (nat n) else None)"
| "as_count v = None"

fun as_text :: "jsval \<Rightarrow> string option" where
  "as_text (JStr s) = Some s"
| "as_text v = None"

text \<open>
  The typed reading of a constructed configuration; \<open>None\<close> when an option was given
  a value outside its documented type (a negative count, a string for a number).
\<close>

definition typed_config :: "(option_name \<Rightarrow> jsval) \<Rightarrow> config option" where
  "typed_config c =
     (case as_count (c TargetCount) of None \<Rightarrow> None | Some tc \<Rightarrow>
      case as_count (c BatchSize) of None \<Rightarrow> None | Some bs \<Rightarrow>
      case as_count (c ConcurrentRequests) of None \<Rightarrow> None | Some cr \<Rightarrow>
      case as_count (c MinThreshold) of None \<Rightarrow> None | Some mt \<Rightarrow>
      case as_text (c ProxyProtocol) of None \<Rightarrow> None | Some pp \<Rightarrow>
      case as_count (c MaxRefillAttempts) of None \<Rightarrow> None | Some ma \<Rightarrow>
      case as_count (c CacheExpiry) of None \<Rightarrow> None | Some ce \<Rightarrow>
        Some \<lparr>targetCount = tc, batchSize = bs, concurrentRequests = cr, minThreshold = mt,
              proxyProtocol = pp, maxRefillAttempts = ma, useCache = truthy (c UseCache),
              cacheExpiry = int ce\<rparr>)"

definition new_config :: "(option_name \<Rightarrow> jsval) \<Rightarrow> config option" where
  "new_config options = typed_config (constructor_config options)"

section \<open>The pool's state\<close>

text \<open>
  A pool member. \<open>ip\<close> and \<open>port\<close> are the two destructured parts of the candidate
  string (\<open>None\<close> is \<^verbatim>\<open>undefined\<close>); \<open>addedAt\<close> is the clock reading at admission.
\<close>

record proxy =
  ip :: "string option"
  port :: "string option"
  protocol :: string
  full :: string
  addedAt :: int

record cache_entry =
  valid :: bool
  timestamp :: int

text \<open>
  \<^verbatim>\<open>proxyCache\<close> is a JavaScript Map: its entries in insertion order. \<^verbatim>\<open>set\<close> on a
  key already there replaces the value in place, on a new key appends; this is
  \<^const>\<open>AList.update\<close>. \<^verbatim>\<open>has\<close>/\<^verbatim>\<open>get\<close> are \<^const>\<open>map_of\<close>.
\<close>

type_synonym cache = "(string \<times> cache_entry) list"

record pstate =
  availableProxies :: "proxy list"
  currentIndex :: nat
  isRefilling :: bool
  proxyCache :: cache

definition new_state :: pstate where
  "new_state = \<lparr>availableProxies = [], currentIndex = 0, isRefilling = False, proxyCache = []\<rparr>"

definition cache_set :: "string \<Rightarrow> bool \<Rightarrow> int \<Rightarrow> pstate \<Rightarrow> pstate" where
  "cache_set key v now s =
     s\<lparr>proxyCache := AList.update key \<lparr>valid = v, timestamp = now\<rparr> (proxyCache s)\<rparr>"

text \<open>\<^verbatim>\<open>availableProxies.some(p => p.ip === ip && p.port === port)\<close>\<close>

definition in_pool :: "proxy list \<Rightarrow> string option \<Rightarrow> string option \<Rightarrow> bool" where
  "in_pool pool i p = list_ex (\<lambda>q. ip q = i \<and> port q = p) pool"

section \<open>The environment\<close>

text \<open>
  What a request to the listing service comes back with: \<^verbatim>\<open>axios.get\<close> throws
  (no connection, timeout), or resolves with a response whose \<^verbatim>\<open>data\<close> is the parsed
  body. \<^verbatim>\<open>validateStatus\<close> accepts every status, so no status makes it throw.
\<close>

datatype provider_outcome = TransportFailure | Response jsval

text \<open>What the probe request through a candidate comes back with: a throw (transport
  error, timeout), or a response with its status and body.\<close>

datatype probe_outcome = ProbeError | ProbeResponse int jsval

text \<open>
  The environment of one refill cycle. A phase is \<open>0\<close> for the cache-first pass and
  \<open>k\<close> for the \<open>k\<close>-th acquisition attempt.
  \<^item> \<open>fetch k n\<close>: the outcome of the listing request of attempt \<open>k\<close>, asked for \<open>n\<close> candidates;
  \<^item> \<open>probe k i c\<close>: the outcome of probing, in phase \<open>k\<close>, the candidate \<open>c\<close> at position \<open>i\<close>
    of the list under test;
  \<^item> \<open>scan_now\<close>: \<^verbatim>\<open>Date.now()\<close> when the cache is scanned for candidates;
  \<^item> \<open>batch_now k i\<close>: \<^verbatim>\<open>Date.now()\<close> when, in phase \<open>k\<close>, the chunk starting at position \<open>i\<close> is
    dispatched;
  \<^item> \<open>admit_now k\<close>: \<^verbatim>\<open>Date.now()\<close> when the verdicts of phase \<open>k\<close> are admitted.
  One synchronous run reads one clock value.
\<close>

record world =
  fetch :: "nat \<Rightarrow> nat \<Rightarrow> provider_outcome"
  probe :: "nat \<Rightarrow> nat \<Rightarrow> string \<Rightarrow> probe_outcome"
  scan_now :: int
  batch_now :: "nat \<Rightarrow> nat \<Rightarrow> int"
  admit_now :: "nat \<Rightarrow> int"

section \<open>Validation cache\<close>

text \<open>
  The lookup that \<^verbatim>\<open>testProxiesConcurrently\<close> makes before probing a candidate: the
  cached verdict when the cache is on, has the key, and the entry is fresh
  (\<^verbatim>\<open>Date.now() - timestamp < cacheExpiry\<close>); otherwise a miss.
\<close>

definition cache_lookup :: "config \<Rightarrow> int \<Rightarrow> cache \<Rightarrow> string \<Rightarrow> bool option" where
  "cache_lookup cfg now c key =
     (if useCache cfg then
        (case map_of c key of
           None \<Rightarrow> None
         | Some e \<Rightarrow> if now - timestamp e < cacheExpiry cfg then Some (valid e) else None)
      else None)"

text \<open>
  \<^verbatim>\<open>cleanupCache\<close>: nothing when the cache is off; otherwise every entry with
  \<^verbatim>\<open>now - timestamp > cacheExpiry\<close> is deleted.
\<close>

definition cleanupCache :: "config \<Rightarrow> int \<Rightarrow> pstate \<Rightarrow> pstate" where
  "cleanupCache cfg now s =
     (if \<not> useCache cfg then s
      else s\<lparr>proxyCache :=
             filter (\<lambda>(key, e). \<not> (now - timestamp e > cacheExpiry cfg)) (proxyCache s)\<rparr>)"

section \<open>Pool\<close>

text \<open>
  \<^verbatim>\<open>filterExistingProxies\<close>, called on whatever the provider client returned.
  \<^verbatim>\<open>proxies.filter\<close> is a TypeError unless \<open>proxies\<close> is an array, and
  \<^verbatim>\<open>proxy.split\<close> is a TypeError unless the element is a string.
\<close>

fun filter_loop :: "proxy list \<Rightarrow> jsval list \<Rightarrow> js_error + string list" where
  "filter_loop pool [] = Inr []"
| "filter_loop pool (JStr p # rest) =
     (case filter_loop pool rest of
        Inl e \<Rightarrow> Inl e
      | Inr keep \<Rightarrow>
          (case split_ip_port p of
             (i, pt) \<Rightarrow> Inr (if \<not> in_pool pool i pt then p # keep else keep)))"
| "filter_loop pool (v # rest) = Inl TypeError"

fun filterExistingProxies :: "pstate \<Rightarrow> jsval \<Rightarrow> js_error + string list" where
  "filterExistingProxies s (JArr xs) = filter_loop (availableProxies s) xs"
| "filterExistingProxies s v = Inl TypeError"

text \<open>
  \<^verbatim>\<open>addValidProxies\<close>: the loop over the verdicts. A valid candidate whose
  \<open>(ip, port)\<close> is not in the pool is pushed and, with the cache on, recorded valid; the
  loop breaks once the pool has reached the target. An invalid candidate is recorded
  invalid when the cache is on.
\<close>

fun addValidProxies :: "config \<Rightarrow> int \<Rightarrow> (string \<times> bool) list \<Rightarrow> pstate \<Rightarrow> pstate" where
  "addValidProxies cfg now [] s = s"
| "addValidProxies cfg now ((p, result) # rest) s =
     (if result then
        (case split_ip_port p of
           (i, pt) \<Rightarrow>
             if \<not> in_pool (availableProxies s) i pt then
               (let proxyObj = \<lparr>ip = i, port = pt, protocol = proxyProtocol cfg,
                                 full = proxyProtocol cfg @ ''://'' @ p, addedAt = now\<rparr>;
                    s1 = s\<lparr>availableProxies := availableProxies s @ [proxyObj]\<rparr>;
                    s2 = (if useCache cfg then cache_set p True now s1 else s1)
                in if length (availableProxies s2) \<ge> targetCount cfg then s2
                   else addValidProxies cfg now rest s2)
             else addValidProxies cfg now rest s)
      else if useCache cfg then addValidProxies cfg now rest (cache_set p False now s)
      else addValidProxies cfg now rest s)"

text \<open>
  The pool that \<^verbatim>\<open>addValidProxies\<close> leaves, computed from the pool alone: the cache
  writes of the loop do not bear on what is pushed.
\<close>

fun pool_after :: "config \<Rightarrow> int \<Rightarrow> (string \<times> bool) list \<Rightarrow> proxy list \<Rightarrow> proxy list" where
  "pool_after cfg now [] pool = pool"
| "pool_after cfg now ((p, result) # rest) pool =
     (if result \<and> \<not> in_pool pool (fst (split_ip_port p)) (snd (split_ip_port p)) then
        (let pool' = pool @ [\<lparr>ip = fst (split_ip_port p), port = snd (split_ip_port p),
                               protocol = proxyProtocol cfg,
                               full = proxyProtocol cfg @ ''://'' @ p, addedAt = now\<rparr>]
         in if length pool' \<ge> targetCount cfg then pool' else pool_after cfg now rest pool')
      else pool_after cfg now rest pool)"

text \<open>
  \<^verbatim>\<open>getProxy\<close>: \<^verbatim>\<open>null\<close> on an empty pool; otherwise the member at the cursor
  (\<^verbatim>\<open>undefined\<close> if the cursor is past the end), and the cursor advances modulo the
  length. \<open>None\<close> stands for both absent results.
\<close>

definition getProxy :: "pstate \<Rightarrow> proxy option \<times> pstate" where
  "getProxy s =
     (if length (availableProxies s) = 0 then (None, s)
      else (js_index (availableProxies s) (currentIndex s),
            s\<lparr>currentIndex := (currentIndex s + 1) mod length (availableProxies s)\<rparr>))"

text \<open>\<open>n\<close> calls of \<^verbatim>\<open>getProxy\<close> in a row: what they returned, in order, and the state left.\<close>

fun getProxy_times :: "nat \<Rightarrow> pstate \<Rightarrow> proxy option list \<times> pstate" where
  "getProxy_times 0 s = ([], s)"
| "getProxy_times (Suc n) s =
     (case getProxy s of
        (r, s') \<Rightarrow> (case getProxy_times n s' of (rs, s'') \<Rightarrow> (r # rs, s'')))"

text \<open>
  \<^verbatim>\<open>checkAndRefill\<close> is called by \<^verbatim>\<open>removeProxy\<close> without \<^verbatim>\<open>await\<close>: what runs before
  \<^verbatim>\<open>removeProxy\<close> returns is its guard and, when the guard passes, the start of
  \<^verbatim>\<open>refillProxies\<close> up to its first suspension, which sets \<^verbatim>\<open>isRefilling\<close> and changes
  nothing else of the state. The rest of that cycle is \<open>refill_cycle\<close> below.
\<close>

definition checkAndRefill_start :: "config \<Rightarrow> pstate \<Rightarrow> pstate" where
  "checkAndRefill_start cfg s =
     (if length (availableProxies s) \<le> minThreshold cfg \<and> \<not> isRefilling s
      then s\<lparr>isRefilling := True\<rparr> else s)"

text \<open>
  \<^verbatim>\<open>removeProxy(ip, port)\<close>. \<open>portStr\<close> is \<^verbatim>\<open>port.toString()\<close>, the decimal numeral of
  a numeric port.
\<close>

definition removeProxy :: "config \<Rightarrow> int \<Rightarrow> string \<Rightarrow> string \<Rightarrow> pstate \<Rightarrow> bool \<times> pstate" where
  "removeProxy cfg now i portStr s =
     (let initialLength = length (availableProxies s);
          proxyToRemove = find (\<lambda>q. ip q = Some i \<and> port q = Some portStr) (availableProxies s);
          s1 = (if proxyToRemove \<noteq> None \<and> useCache cfg
                then cache_set (i @ '':'' @ portStr) False now s else s);
          s2 = s1\<lparr>availableProxies :=
                   filter (\<lambda>q. \<not> (ip q = Some i \<and> port q = Some portStr)) (availableProxies s1)\<rparr>;
          s3 = (if currentIndex s2 \<ge> length (availableProxies s2) \<and> length (availableProxies s2) > 0
                then s2\<lparr>currentIndex := 0\<rparr> else s2);
          removed = (initialLength > length (availableProxies s3))
      in (removed, checkAndRefill_start cfg s3))"

section \<open>Candidate provider client\<close>

text \<open>
  The body of the \<^verbatim>\<open>try\<close> in \<^verbatim>\<open>getProxiesFromProvider\<close>, after the request has
  resolved with body \<open>d\<close>: the guard \<^verbatim>\<open>response.data && response.data.code === 200\<close>,
  the log line that reads \<^verbatim>\<open>response.data.data.count\<close>, and the return of
  \<^verbatim>\<open>response.data.data.proxies\<close>, whatever that is.
\<close>

definition provider_body :: "jsval \<Rightarrow> js_error + jsval" where
  "provider_body d =
     (if truthy d \<and> get_prop d ''code'' = Inr (JNum 200) then
        (case get_prop d ''data'' of
           Inl e \<Rightarrow> Inl e
         | Inr dd \<Rightarrow>
             (case get_prop dd ''count'' of
                Inl e \<Rightarrow> Inl e
              | Inr cnt \<Rightarrow> get_prop dd ''proxies''))
      else Inr (JArr []))"

text \<open>\<^verbatim>\<open>getProxiesFromProvider\<close>: every throw inside is caught and answered by \<^verbatim>\<open>[]\<close>.\<close>

definition getProxiesFromProvider :: "provider_outcome \<Rightarrow> jsval" where
  "getProxiesFromProvider r =
     (case r of
        TransportFailure \<Rightarrow> JArr []
      | Response d \<Rightarrow> (case provider_body d of Inl e \<Rightarrow> JArr [] | Inr v \<Rightarrow> v))"

text \<open>\<^verbatim>\<open>count || this.batchSize\<close>, the number of candidates the request asks for.\<close>

definition requestCount :: "config \<Rightarrow> nat \<Rightarrow> nat" where
  "requestCount cfg n = (if n \<noteq> 0 then n else batchSize cfg)"

section \<open>Proxy validator\<close>

text \<open>
  \<^verbatim>\<open>testProxy\<close>, as the truth value of what it returns (its callers only test it):
  \<^verbatim>\<open>false\<close> when the request throws; otherwise \<^verbatim>\<open>response.status === 200\<close> and
  \<^verbatim>\<open>response.data\<close> truthy, a string, and including \<^verbatim>\<open>'notion'\<close> or \<^verbatim>\<open>'Notion'\<close>.
\<close>

fun is_string :: "jsval \<Rightarrow> bool" where
  "is_string (JStr s) = True"
| "is_string v = False"

fun data_includes :: "jsval \<Rightarrow> string \<Rightarrow> bool" where
  "data_includes (JStr s) sub = str_includes s sub"
| "data_includes v sub = False"

definition testProxy :: "probe_outcome \<Rightarrow> bool" where
  "testProxy r =
     (case r of
        ProbeError \<Rightarrow> False
      | ProbeResponse status d \<Rightarrow>
          status = 200 \<and>
          (truthy d \<and> is_string d \<and> (data_includes d ''notion'' \<or> data_includes d ''Notion'')))"

section \<open>Refill orchestrator\<close>

text \<open>
  The verdict for one candidate of a chunk: the fresh cached verdict if there is one,
  otherwise \<^verbatim>\<open>testProxy\<close> on the probe's outcome (\<^verbatim>\<open>testProxy\<close> never rejects, so
  the \<^verbatim>\<open>catch\<close> after it never runs).
\<close>

definition candidate_verdict :: "config \<Rightarrow> cache \<Rightarrow> int \<Rightarrow> probe_outcome \<Rightarrow> string \<Rightarrow> bool" where
  "candidate_verdict cfg c now outcome p =
     (case cache_lookup cfg now c p of Some v \<Rightarrow> v | None \<Rightarrow> testProxy outcome)"

text \<open>\<^verbatim>\<open>Math.min(this.concurrentRequests * 2, 20)\<close>, the chunk size.\<close>

definition chunk_size :: "config \<Rightarrow> nat" where
  "chunk_size cfg = min (concurrentRequests cfg * 2) 20"

text \<open>
  The loop of \<^verbatim>\<open>testProxiesConcurrently\<close>, from position \<open>i\<close> with the verdicts so far:
  the chunk \<^verbatim>\<open>proxies.slice(i, i + step)\<close> is judged, its verdicts appended in order,
  and the loop breaks when the valid verdicts so far are at least \<open>remainingNeeded\<close>.
  With a step of zero the loop variable never moves: unless the break is taken the loop
  does not end, which is the result \<open>None\<close>.
\<close>

function test_loop ::
  "config \<Rightarrow> cache \<Rightarrow> (nat \<Rightarrow> int) \<Rightarrow> (nat \<Rightarrow> string \<Rightarrow> probe_outcome) \<Rightarrow> int \<Rightarrow>
   string list \<Rightarrow> nat \<Rightarrow> (string \<times> bool) list \<Rightarrow> (string \<times> bool) list option" where
  "test_loop cfg c nowf prb remainingNeeded proxies i results =
     (if i < length proxies then
        (let batch = take (chunk_size cfg) (drop i proxies);
             batchResults =
               map (\<lambda>(pos, p). (p, candidate_verdict cfg c (nowf i) (prb pos p) p))
                   (enumerate i batch);
             results' = results @ batchResults;
             successCount = length (filter snd results')
         in if int successCount \<ge> remainingNeeded then Some results'
            else if chunk_size cfg = 0 then None
            else test_loop cfg c nowf prb remainingNeeded proxies (i + chunk_size cfg) results')
      else Some results)"
  by pat_completeness auto
termination
  by (relation "measure (\<lambda>(cfg, c, nowf, prb, remainingNeeded, proxies, i, results).
                           length proxies - i)") auto

definition testProxiesConcurrently ::
  "config \<Rightarrow> (nat \<Rightarrow> int) \<Rightarrow> (nat \<Rightarrow> string \<Rightarrow> probe_outcome) \<Rightarrow> string list \<Rightarrow> pstate \<Rightarrow>
   (string \<times> bool) list option" where
  "testProxiesConcurrently cfg nowf prb proxies s =
     test_loop cfg (proxyCache s) nowf prb
       (int (targetCount cfg) - int (length (availableProxies s))) proxies 0 []"

text \<open>
  The scan of \<^verbatim>\<open>tryUsingCachedProxies\<close>: the keys of the entries that are fresh and
  valid, in the Map's order, the scan breaking once it holds \<open>neededProxies\<close> keys
  (the test comes after the push).
\<close>

fun cached_scan :: "config \<Rightarrow> int \<Rightarrow> int \<Rightarrow> cache \<Rightarrow> string list \<Rightarrow> string list" where
  "cached_scan cfg now neededProxies [] cachedProxies = cachedProxies"
| "cached_scan cfg now neededProxies ((proxyKey, e) # rest) cachedProxies =
     (if now - timestamp e < cacheExpiry cfg \<and> valid e then
        (let cachedProxies' = cachedProxies @ [proxyKey]
         in if int (length cachedProxies') \<ge> neededProxies then cachedProxies'
            else cached_scan cfg now neededProxies rest cachedProxies')
      else cached_scan cfg now neededProxies rest cachedProxies)"

definition tryUsingCachedProxies :: "config \<Rightarrow> world \<Rightarrow> int \<Rightarrow> pstate \<Rightarrow> pstate option" where
  "tryUsingCachedProxies cfg w neededProxies s =
     (let cachedProxies = cached_scan cfg (scan_now w) neededProxies (proxyCache s) []
      in if length cachedProxies > 0 then
           (case testProxiesConcurrently cfg (batch_now w 0) (probe w 0) cachedProxies s of
              None \<Rightarrow> None
            | Some results \<Rightarrow> Some (addValidProxies cfg (admit_now w 0) results s))
         else Some s)"

text \<open>
  A request to the listing service, as the loop issues it: the number of the attempt
  that makes it, and the number of candidates it asks for.
\<close>

type_synonym provider_request = "nat \<times> nat"

text \<open>
  The \<^verbatim>\<open>while\<close> loop of \<^verbatim>\<open>refillProxies\<close>, entered with \<open>attempts\<close> attempts made and
  the requests \<open>requests\<close> issued to the listing service so far. Each pass counts one
  attempt and issues one request, \<^verbatim>\<open>getProxiesFromProvider(batchSizeNeeded)\<close>, whose
  outcome the environment gives. The loop ends with the number of attempts made, the
  requests issued, in order, the error thrown in its body if one was, and the state;
  \<open>None\<close> if it does not end. \<^verbatim>\<open>proxies.length\<close> and \<^verbatim>\<open>filterExistingProxies\<close> throw on
  what is not an array of strings; the sleeps change no state.
\<close>

function refill_loop ::
  "config \<Rightarrow> world \<Rightarrow> nat \<Rightarrow> provider_request list \<Rightarrow> pstate \<Rightarrow>
   (nat \<times> provider_request list \<times> js_error option \<times> pstate) option" where
  "refill_loop cfg w attempts requests s =
     (if length (availableProxies s) < targetCount cfg \<and> attempts < maxRefillAttempts cfg then
        (let attempts' = attempts + 1;
             remainingNeeded = int (targetCount cfg) - int (length (availableProxies s));
             batchSizeNeeded = max (int (batchSize cfg)) (remainingNeeded * 2);
             asked = requestCount cfg (nat batchSizeNeeded);
             requests' = requests @ [(attempts', asked)];
             proxies = getProxiesFromProvider (fetch w attempts' asked)
         in case get_prop proxies ''length'' of
              Inl e \<Rightarrow> Some (attempts', requests', Some e, s)
            | Inr len \<Rightarrow>
                if len = JNum 0 then refill_loop cfg w attempts' requests' s
                else
                  (case filterExistingProxies s proxies of
                     Inl e \<Rightarrow> Some (attempts', requests', Some e, s)
                   | Inr newProxies \<Rightarrow>
                       if length newProxies = 0 then refill_loop cfg w attempts' requests' s
                       else
                         (case testProxiesConcurrently cfg (batch_now w attempts')
                                 (probe w attempts') newProxies s of
                            None \<Rightarrow> None
                          | Some results \<Rightarrow>
                              (let s' = addValidProxies cfg (admit_now w attempts') results s
                               in if length (availableProxies s') \<ge> targetCount cfg
                                  then Some (attempts', requests', None, s')
                                  else refill_loop cfg w attempts' requests' s'))))
      else Some (attempts, requests, None, s))"
  by pat_completeness auto
termination
  by (relation "measure (\<lambda>(cfg, w, attempts, requests, s). maxRefillAttempts cfg - attempts)")
     auto

text \<open>
  What \<^verbatim>\<open>refillProxies\<close> does after it has set \<^verbatim>\<open>isRefilling\<close>: the cache-first pass
  when the cache is on and not empty, the loop, the \<^verbatim>\<open>catch\<close>, and the \<^verbatim>\<open>finally\<close>
  that clears \<^verbatim>\<open>isRefilling\<close>. Its result is the loop's, with the state that the
  \<^verbatim>\<open>finally\<close> leaves.
\<close>

definition refill_cycle ::
  "config \<Rightarrow> world \<Rightarrow> pstate \<Rightarrow>
   (nat \<times> provider_request list \<times> js_error option \<times> pstate) option" where
  "refill_cycle cfg w s =
     (let neededProxies = int (targetCount cfg) - int (length (availableProxies s))
      in case (if useCache cfg \<and> length (proxyCache s) > 0
               then tryUsingCachedProxies cfg w neededProxies s else Some s) of
           None \<Rightarrow> None
         | Some s1 \<Rightarrow>
             (case refill_loop cfg w 0 [] s1 of
                None \<Rightarrow> None
              | Some (attempts, requests, err, s2) \<Rightarrow>
                  Some (attempts, requests, err, s2\<lparr>isRefilling := False\<rparr>)))"

text \<open>
  The result of a call of \<^verbatim>\<open>refillProxies\<close>: it returned at its guard, or it ran a
  cycle that made so many attempts and caught this error, if any.
\<close>

datatype refill_result = NoOp | Cycle nat "js_error option"

definition refillProxies :: "config \<Rightarrow> world \<Rightarrow> pstate \<Rightarrow> (refill_result \<times> pstate) option" where
  "refillProxies cfg w s =
     (if isRefilling s then Some (NoOp, s)
      else (case refill_cycle cfg w (s\<lparr>isRefilling := True\<rparr>) of
              None \<Rightarrow> None
            | Some (attempts, requests, err, s') \<Rightarrow> Some (Cycle attempts err, s')))"

text \<open>
  The requests to the listing service that the same call of \<^verbatim>\<open>refillProxies\<close> issues,
  in order: none when it returns at its guard, otherwise those of its cycle.
\<close>

definition refill_requests :: "config \<Rightarrow> world \<Rightarrow> pstate \<Rightarrow> provider_request list option" where
  "refill_requests cfg w s =
     (if isRefilling s then Some []
      else (case refill_cycle cfg w (s\<lparr>isRefilling := True\<rparr>) of
              None \<Rightarrow> None
            | Some (attempts, requests, err, s') \<Rightarrow> Some requests))"

definition checkAndRefill :: "config \<Rightarrow> world \<Rightarrow> pstate \<Rightarrow> (refill_result \<times> pstate) option" where
  "checkAndRefill cfg w s =
     (if length (availableProxies s) \<le> minThreshold cfg \<and> \<not> isRefilling s
      then refillProxies cfg w s else Some (NoOp, s))"

section \<open>Sequences of operations\<close>

text \<open>
  The calls that change a pool, one after the other: an admission
  (\<^verbatim>\<open>addValidProxies\<close> on a list of verdicts), a removal, a call of
  \<^verbatim>\<open>refillProxies\<close>, the rest of a cycle that the check of a removal has started, a
  \<^verbatim>\<open>getProxy\<close>, a \<^verbatim>\<open>cleanupCache\<close>. \<open>None\<close> when a cycle does not end. A cycle is run
  as one step, from the state it finds; what a cycle interleaved with other calls does
  to the pool is a sequence of removals and of admissions of the verdicts it holds, which
  the \<open>Admit\<close> and \<open>Remove\<close> steps cover.
\<close>

datatype pool_op =
    Admit int "(string \<times> bool) list"
  | Remove int string string
  | Refill world
  | Finish world
  | Get
  | Cleanup int

fun apply_op :: "config \<Rightarrow> pool_op \<Rightarrow> pstate \<Rightarrow> pstate option" where
  "apply_op cfg (Admit now results) s = Some (addValidProxies cfg now results s)"
| "apply_op cfg (Remove now i portStr) s = Some (snd (removeProxy cfg now i portStr s))"
| "apply_op cfg (Refill w) s = map_option snd (refillProxies cfg w s)"
| "apply_op cfg (Finish w) s =
     (if isRefilling s
      then map_option (\<lambda>(attempts, requests, err, s'). s') (refill_cycle cfg w s)
      else Some s)"
| "apply_op cfg Get s = Some (snd (getProxy s))"
| "apply_op cfg (Cleanup now) s = Some (cleanupCache cfg now s)"

fun run_ops :: "config \<Rightarrow> pool_op list \<Rightarrow> pstate \<Rightarrow> pstate option" where
  "run_ops cfg [] s = Some s"
| "run_ops cfg (x # xs) s =
     (case apply_op cfg x s of None \<Rightarrow> None | Some s' \<Rightarrow> run_ops cfg xs s')"

section \<open>Invariants\<close>

text \<open>No two members share \<open>(ip, port)\<close>.\<close>

definition unique_pool :: "proxy list \<Rightarrow> bool" where
  "unique_pool pool = distinct (map (\<lambda>q. (ip q, port q)) pool)"

text \<open>The cursor is inside a pool that has members, and at the start of an empty one.\<close>

definition cursor_ok :: "pstate \<Rightarrow> bool" where
  "cursor_ok s =
     (if availableProxies s = [] then currentIndex s = 0
      else currentIndex s < length (availableProxies s))"

definition pool_inv :: "pstate \<Rightarrow> bool" where
  "pool_inv s = (unique_pool (availableProxies s) \<and> cursor_ok s)"

section \<open>The verdict rule in the specification's words\<close>

text \<open>ASCII lower case of a character.\<close>

definition to_lower :: "char \<Rightarrow> char" where
  "to_lower c =
     (let n = (of_char c :: nat) in if 65 \<le> n \<and> n \<le> 90 then char_of (n + 32) else c)"

text \<open>
  The specification's rule for the validator: valid iff the status is exactly 200 and
  the body is textual and contains the marker, matched case-insensitively.
\<close>

definition spec_verdict :: "probe_outcome \<Rightarrow> bool" where
  "spec_verdict r =
     (case r of
        ProbeError \<Rightarrow> False
      | ProbeResponse status d \<Rightarrow>
          status = 200 \<and>
          (case d of
             JStr s \<Rightarrow> str_includes (map to_lower s) (map to_lower ''notion'')
           | _ \<Rightarrow> False))"

section \<open>Example configurations and environments\<close>

text \<open>A well-formed answer of the listing service carrying the candidates \<open>ps\<close>.\<close>

definition listing :: "string list \<Rightarrow> provider_outcome" where
  "listing ps =
     Response (JObj [(''code'', JNum 200),
                     (''data'', JObj [(''count'', JNum (int (length ps))),
                                      (''proxies'', JArr (map JStr ps))])])"

text \<open>A probe that reached the target service.\<close>

definition page_ok :: probe_outcome where
  "page_ok = ProbeResponse 200 (JStr ''<title>Notion</title>'')"

text \<open>The options \<^verbatim>\<open>{ targetCount: 2, cacheExpiry: 1000 }\<close> and the configuration they give.\<close>

definition small_options :: "option_name \<Rightarrow> jsval" where
  "small_options name =
     (if name = TargetCount then JNum 2
      else if name = CacheExpiry then JNum 1000 else Undefined)"

definition small_config :: config where
  "small_config =
     \<lparr>targetCount = 2, batchSize = 20, concurrentRequests = 10, minThreshold = 5,
      proxyProtocol = ''http'', maxRefillAttempts = 20, useCache = True, cacheExpiry = 1000\<rparr>"

text \<open>The options \<^verbatim>\<open>{ targetCount: 0, retryDelay: 0, proxyProtocol: '', batchSize: false,
  useCache: false }\<close>.\<close>

definition zero_options :: "option_name \<Rightarrow> jsval" where
  "zero_options name =
     (if name = TargetCount \<or> name = RetryDelay then JNum 0
      else if name = ProxyProtocol then JStr ''''
      else if name = BatchSize \<or> name = UseCache then JBool False
      else Undefined)"

text \<open>The listing service answers with two candidates, and both probes succeed.\<close>

definition world_two_valid :: world where
  "world_two_valid =
     \<lparr>fetch = (\<lambda>k n. listing [''1.1.1.1:8080'', ''2.2.2.2:8080'']),
      probe = (\<lambda>k i c. page_ok), scan_now = 0, batch_now = (\<lambda>k i. 0), admit_now = (\<lambda>k. 0)\<rparr>"

text \<open>The listing service cannot be reached.\<close>

definition world_down :: world where
  "world_down =
     \<lparr>fetch = (\<lambda>k n. TransportFailure),
      probe = (\<lambda>k i c. ProbeError), scan_now = 0, batch_now = (\<lambda>k i. 0), admit_now = (\<lambda>k. 0)\<rparr>"

text \<open>The listing service answers \<^verbatim>\<open>{ "code": 200, "data": {} }\<close>.\<close>

definition world_malformed :: world where
  "world_malformed =
     \<lparr>fetch = (\<lambda>k n. Response (JObj [(''code'', JNum 200), (''data'', JObj [])])),
      probe = (\<lambda>k i c. ProbeError), scan_now = 0, batch_now = (\<lambda>k i. 0), admit_now = (\<lambda>k. 0)\<rparr>"

text \<open>A pool of three members with the cursor at the second, and one invalid verdict cached.\<close>

definition member :: "string \<Rightarrow> string \<Rightarrow> proxy" where
  "member h p = \<lparr>ip = Some h, port = Some p, protocol = ''http'',
                 full = ''http://'' @ h @ '':'' @ p, addedAt = 0\<rparr>"

definition pool_of_three :: pstate where
  "pool_of_three =
     \<lparr>availableProxies =
        [member ''1.1.1.1'' ''80'', member ''2.2.2.2'' ''80'', member ''3.3.3.3'' ''80''],
      currentIndex = 1, isRefilling = False,
      proxyCache = [(''9.9.9.9:80'', \<lparr>valid = False, timestamp = 0\<rparr>)]\<rparr>"

text \<open>A configuration with a target of 5 and at most 3 attempts.\<close>

definition three_attempts :: config where
  "three_attempts = small_config\<lparr>targetCount := 5, maxRefillAttempts := 3\<rparr>"

text \<open>
  A pool after the admission of three valid candidates and one call of \<^verbatim>\<open>getProxy\<close>:
  three members, the cursor at the second.
\<close>

definition second_turn :: pstate where
  "second_turn =
     snd (getProxy (addValidProxies three_attempts 0
            [(''1.1.1.1:80'', True), (''2.2.2.2:80'', True), (''3.3.3.3:80'', True)]
            new_state))"

text \<open>A pool whose cache holds one valid verdict recorded at time 0.\<close>

definition stale_cache :: pstate where
  "stale_cache =
     new_state\<lparr>proxyCache := [(''1.1.1.1:8080'', \<lparr>valid = True, timestamp = 0\<rparr>)]\<rparr>"




text \<open>
  A sequence of calls on a fresh pool: an admission with a duplicate among its verdicts,
  a \<^verbatim>\<open>getProxy\<close>, a removal (whose check starts a cycle), the rest of that cycle, a
  cache sweep, and a call of \<^verbatim>\<open>refillProxies\<close>.
\<close>

definition busy_day :: "pool_op list" where
  "busy_day =
     [Admit 0 [(''1.1.1.1:80'', True), (''1.1.1.1:80:again'', True), (''2.2.2.2:80'', True)],
      Get,
      Remove 1 ''2.2.2.2'' ''80'',
      Finish world_two_valid,
      Cleanup 5000,
      Refill world_two_valid]"

section \<open>Properties\<close>

declare test_loop.simps [simp del]
declare refill_loop.simps [simp del]

subsection \<open>Strings and membership\<close>

lemma js_split_nonempty: "js_split c s \<noteq> []"
  by (induction s) (auto split: list.splits)

lemma split_ip_port_ip: "\<exists>i. fst (split_ip_port p) = Some i"
  using js_split_nonempty [of "CHR '':''" p]
  by (cases "js_split (CHR '':'') p") (auto simp: split_ip_port_def)

lemma in_pool_iff: "in_pool pool i p \<longleftrightarrow> (i, p) \<in> set (map (\<lambda>q. (ip q, port q)) pool)"
  by (auto simp: in_pool_def list_ex_iff)

lemma str_includes_iff: "str_includes s sub \<longleftrightarrow> (\<exists>u v. s = u @ sub @ v)"
proof (induction s)
  case Nil
  then show ?case by auto
next
  case (Cons c cs)
  show ?case
  proof
    assume "str_includes (c # cs) sub"
    then consider "take (length sub) (c # cs) = sub" | "str_includes cs sub" by auto
    then show "\<exists>u v. c # cs = u @ sub @ v"
    proof cases
      case 1
      then have "c # cs = [] @ sub @ drop (length sub) (c # cs)"
        by (metis append_Nil append_take_drop_id)
      then show ?thesis by blast
    next
      case 2
      then obtain u v where "cs = u @ sub @ v" using Cons.IH by blast
      then have "c # cs = (c # u) @ sub @ v" by simp
      then show ?thesis by blast
    qed
  next
    assume "\<exists>u v. c # cs = u @ sub @ v"
    then obtain u v where uv: "c # cs = u @ sub @ v" by blast
    show "str_includes (c # cs) sub"
    proof (cases u)
      case Nil
      then have "take (length sub) (c # cs) = sub"
        using uv by (metis append_Nil append_eq_conv_conj)
      then show ?thesis by simp
    next
      case (Cons a u')
      then have "cs = u' @ sub @ v" using uv by simp
      then show ?thesis using Cons.IH by auto
    qed
  qed
qed

subsection \<open>Admission\<close>

lemma cache_set_pool [simp]: "availableProxies (cache_set k v now s) = availableProxies s"
  by (simp add: cache_set_def)

lemma cache_set_cursor [simp]: "currentIndex (cache_set k v now s) = currentIndex s"
  by (simp add: cache_set_def)

lemma cache_set_flag [simp]: "isRefilling (cache_set k v now s) = isRefilling s"
  by (simp add: cache_set_def)

lemma addValidProxies_pool:
  "availableProxies (addValidProxies cfg now rs s) = pool_after cfg now rs (availableProxies s)"
  by (induction rs arbitrary: s) (auto simp: Let_def split: prod.splits)

lemma addValidProxies_cursor [simp]:
  "currentIndex (addValidProxies cfg now rs s) = currentIndex s"
  by (induction rs arbitrary: s) (auto simp: Let_def split: prod.splits)

lemma addValidProxies_flag [simp]:
  "isRefilling (addValidProxies cfg now rs s) = isRefilling s"
proof (induction rs arbitrary: s)
  case Nil
  show ?case by simp
next
  case (Cons a rs)
  then show ?case by (cases a) (simp add: Let_def split: prod.splits)
qed

lemma pool_after_unique:
  "unique_pool pool \<Longrightarrow> unique_pool (pool_after cfg now rs pool)"
  by (induction rs arbitrary: pool) (auto simp: Let_def unique_pool_def in_pool_iff)

lemma pool_after_mono: "length pool \<le> length (pool_after cfg now rs pool)"
proof (induction rs arbitrary: pool)
  case Nil
  show ?case by simp
next
  case (Cons x rs)
  obtain p r where x: "x = (p, r)" by (cases x)
  let ?pool' = "pool @ [\<lparr>ip = fst (split_ip_port p), port = snd (split_ip_port p),
                               protocol = proxyProtocol cfg,
                               full = proxyProtocol cfg @ ''://'' @ p, addedAt = now\<rparr>]"
  have "length pool \<le> length (pool_after cfg now rs pool)" by (rule Cons.IH)
  moreover have "length pool \<le> length (pool_after cfg now rs ?pool')"
    using Cons.IH [of ?pool'] by simp
  ultimately show ?case
    unfolding x by (simp add: Let_def)
qed

lemma pool_after_bounded:
  "length pool < targetCount cfg \<Longrightarrow> length (pool_after cfg now rs pool) \<le> targetCount cfg"
  by (induction rs arbitrary: pool) (auto simp: Let_def)

lemma pool_after_full:
  "targetCount cfg \<le> length pool \<Longrightarrow> length (pool_after cfg now rs pool) \<le> Suc (length pool)"
  by (induction rs arbitrary: pool) (auto simp: Let_def)

subsection \<open>The refill cycle: termination and what it preserves\<close>

lemma test_loop_total:
  "0 < concurrentRequests cfg \<Longrightarrow> \<exists>rs. test_loop cfg c nowf prb need proxies i results = Some rs"
proof (induction "length proxies - i" arbitrary: i results rule: less_induct)
  case less
  have cs: "0 < chunk_size cfg" using less.prems by (simp add: chunk_size_def)
  show ?case
  proof (cases "i < length proxies")
    case False
    then show ?thesis by (subst test_loop.simps) simp
  next
    case True
    then have "length proxies - (i + chunk_size cfg) < length proxies - i" using cs by arith
    from less.hyps [OF this less.prems] show ?thesis
      using cs by (subst test_loop.simps) (auto simp: Let_def)
  qed
qed

lemma testProxiesConcurrently_total:
  "0 < concurrentRequests cfg \<Longrightarrow> \<exists>rs. testProxiesConcurrently cfg nowf prb ps s = Some rs"
  unfolding testProxiesConcurrently_def by (rule test_loop_total)

lemma refill_loop_total:
  assumes cr: "0 < concurrentRequests cfg"
  shows "refill_loop cfg w a q s \<noteq> None"
proof (induction "maxRefillAttempts cfg - a" arbitrary: a q s)
  case 0
  then show ?case by (subst refill_loop.simps) auto
next
  case (Suc k)
  have k: "k = maxRefillAttempts cfg - Suc a" using Suc.hyps(2) by arith
  note IH = Suc.hyps(1) [OF k]
  have tl: "\<And>nowf prb ps s. testProxiesConcurrently cfg nowf prb ps s \<noteq> None"
    using testProxiesConcurrently_total [OF cr] by (metis option.distinct(1))
  have tl': "\<And>nowf prb ps s. \<exists>rs. testProxiesConcurrently cfg nowf prb ps s = Some rs"
    using testProxiesConcurrently_total [OF cr] by blast
  show ?case
  proof (cases "length (availableProxies s) < targetCount cfg \<and> a < maxRefillAttempts cfg")
    case False
    then show ?thesis by (subst refill_loop.simps) auto
  next
    case True
    let ?ps = "getProxiesFromProvider (fetch w (Suc a) (requestCount cfg
                 (nat (max (int (batchSize cfg))
                   ((int (targetCount cfg) - int (length (availableProxies s))) * 2)))))"
    show ?thesis
    proof (cases "get_prop ?ps ''length''")
      case (Inl e)
      then show ?thesis using True by (subst refill_loop.simps) (simp add: Let_def)
    next
      case (Inr len)
      show ?thesis
      proof (cases "len = JNum 0")
        case True
        then show ?thesis
          using \<open>length (availableProxies s) < targetCount cfg \<and> a < maxRefillAttempts cfg\<close> Inr IH
          by (subst refill_loop.simps) (simp add: Let_def)
      next
        case False
        show ?thesis
        proof (cases "filterExistingProxies s ?ps")
          case (Inl e)
          then show ?thesis
            using \<open>length (availableProxies s) < targetCount cfg \<and> a < maxRefillAttempts cfg\<close> Inr False
            by (subst refill_loop.simps) (simp add: Let_def)
        next
          case fr: (Inr newProxies)
          obtain rs where rs: "testProxiesConcurrently cfg (batch_now w (Suc a)) (probe w (Suc a)) newProxies s = Some rs"
            using tl' by blast
          show ?thesis
            using \<open>length (availableProxies s) < targetCount cfg \<and> a < maxRefillAttempts cfg\<close> Inr False fr rs IH
            by (subst refill_loop.simps) (simp add: Let_def)
        qed
      qed
    qed
  qed
qed

lemma refill_loop_inv:
  assumes step: "\<And>now rs s. P s \<Longrightarrow> length (availableProxies s) < targetCount cfg \<Longrightarrow>
                   P (addValidProxies cfg now rs s)"
  shows "P s \<Longrightarrow> refill_loop cfg w a q s = Some (n, q', e, s') \<Longrightarrow> P s'"
proof (induction "maxRefillAttempts cfg - a" arbitrary: a q s)
  case 0
  then show ?case by (subst (asm) refill_loop.simps) auto
next
  case (Suc k)
  have k: "k = maxRefillAttempts cfg - Suc a" using Suc.hyps(2) by arith
  note IH = Suc.hyps(1) [OF k]
  show ?case
    using Suc.prems(2) Suc.prems(1)
    apply (subst (asm) refill_loop.simps)
    apply (auto simp: Let_def split: if_splits sum.splits option.splits)
    using IH step apply blast+
    done
qed

lemma tryUsingCachedProxies_total:
  assumes cr: "0 < concurrentRequests cfg"
  shows "\<exists>s'. tryUsingCachedProxies cfg w n s = Some s'"
proof -
  let ?cp = "cached_scan cfg (scan_now w) n (proxyCache s) []"
  obtain rs where "testProxiesConcurrently cfg (batch_now w 0) (probe w 0) ?cp s = Some rs"
    using testProxiesConcurrently_total [OF cr] by blast
  then show ?thesis by (simp add: tryUsingCachedProxies_def Let_def)
qed

lemma tryUsingCachedProxies_inv:
  assumes step: "\<And>now rs s. P s \<Longrightarrow> P (addValidProxies cfg now rs s)"
    and P: "P s" and r: "tryUsingCachedProxies cfg w n s = Some s'"
  shows "P s'"
proof -
  let ?cp = "cached_scan cfg (scan_now w) n (proxyCache s) []"
  show ?thesis
  proof (cases "length ?cp > 0")
    case False
    then have "s' = s" using r by (simp add: tryUsingCachedProxies_def Let_def)
    then show ?thesis using P by simp
  next
    case True
    then obtain rs where "s' = addValidProxies cfg (admit_now w 0) rs s"
      using r by (auto simp: tryUsingCachedProxies_def Let_def split: option.splits)
    then show ?thesis using step [OF P] by simp
  qed
qed

lemma refill_cycle_total:
  assumes cr: "0 < concurrentRequests cfg"
  shows "\<exists>n q e s'. refill_cycle cfg w s = Some (n, q, e, s')"
proof -
  let ?n = "int (targetCount cfg) - int (length (availableProxies s))"
  let ?pre = "if useCache cfg \<and> length (proxyCache s) > 0
               then tryUsingCachedProxies cfg w ?n s else Some s"
  obtain s0 where "tryUsingCachedProxies cfg w ?n s = Some s0"
    using tryUsingCachedProxies_total [OF cr] by blast
  then have "\<exists>s1. ?pre = Some s1" by simp
  then obtain s1 where s1: "?pre = Some s1" by blast
  obtain n q e s2 where "refill_loop cfg w 0 [] s1 = Some (n, q, e, s2)"
    using refill_loop_total [OF cr, of w 0 "[]" s1] by (cases "refill_loop cfg w 0 [] s1") auto
  then show ?thesis using s1 by (simp add: refill_cycle_def Let_def)
qed

lemma refill_cycle_idle:
  "refill_cycle cfg w s = Some (n, q, e, s') \<Longrightarrow> \<not> isRefilling s'"
  by (auto simp: refill_cycle_def Let_def split: option.splits if_splits)

lemma refill_cycle_inv:
  assumes step: "\<And>now rs s. P s \<Longrightarrow> P (addValidProxies cfg now rs s)"
    and flag: "\<And>s b. P s \<Longrightarrow> P (s\<lparr>isRefilling := b\<rparr>)"
    and P: "P s" and r: "refill_cycle cfg w s = Some (n, q, e, s')"
  shows "P s'"
proof -
  let ?n = "int (targetCount cfg) - int (length (availableProxies s))"
  let ?pre = "if useCache cfg \<and> length (proxyCache s) > 0
               then tryUsingCachedProxies cfg w ?n s else Some s"
  obtain s1 s2 where s1: "?pre = Some s1" and s2: "refill_loop cfg w 0 [] s1 = Some (n, q, e, s2)"
    and s': "s' = s2\<lparr>isRefilling := False\<rparr>"
    using r by (auto simp: refill_cycle_def Let_def split: option.splits)
  have "P s1"
    using s1 P tryUsingCachedProxies_inv [of P cfg s w ?n s1, OF step]
    by (auto split: if_splits)
  then have "P s2" using refill_loop_inv [of P cfg s1 w 0 "[]" n q e s2] step s2 by blast
  then show ?thesis using flag s' by simp
qed

lemma small_config_constructed: "new_config small_options = Some small_config"
  by (simp add: new_config_def typed_config_def constructor_config_def small_options_def
                small_config_def)

subsection \<open>Single flight and the return to idle\<close>

text \<open>
  C1. A call of \<^verbatim>\<open>refillProxies\<close> while a cycle is in flight (\<^verbatim>\<open>isRefilling\<close> set)
  returns at once: no cycle runs, no attempt is made and the state, pool and cache
  included, is the one it was called in. A call while idle runs a cycle, and a cycle
  that returns, whatever number of attempts it made and whether or not its loop body
  threw, leaves \<^verbatim>\<open>isRefilling\<close> cleared. With a positive chunk size for the validation
  loop, as every constructed pool has, the cycle does return (with a chunk size of zero
  that loop need not end).
\<close>

theorem refill_single_flight_and_idle:
  "(isRefilling s \<longrightarrow> refillProxies cfg w s = Some (NoOp, s)) \<and>
   (\<forall>r s'. \<not> isRefilling s \<and> refillProxies cfg w s = Some (r, s') \<longrightarrow>
      (\<exists>n e. r = Cycle n e) \<and> \<not> isRefilling s') \<and>
   (0 < concurrentRequests cfg \<and> \<not> isRefilling s \<longrightarrow>
      (\<exists>n e s'. refillProxies cfg w s = Some (Cycle n e, s') \<and> \<not> isRefilling s'))"
proof (intro conjI impI allI)
  assume "isRefilling s"
  then show "refillProxies cfg w s = Some (NoOp, s)" by (simp add: refillProxies_def)
next
  fix r s'
  assume a: "\<not> isRefilling s \<and> refillProxies cfg w s = Some (r, s')"
  then obtain n q e where c: "refill_cycle cfg w (s\<lparr>isRefilling := True\<rparr>) = Some (n, q, e, s')"
    and r: "r = Cycle n e"
    by (auto simp: refillProxies_def split: option.splits)
  show "\<exists>n e. r = Cycle n e" using r by blast
  show "\<not> isRefilling s'" using c by (rule refill_cycle_idle)
next
  assume a: "0 < concurrentRequests cfg \<and> \<not> isRefilling s"
  then obtain n q e s' where c: "refill_cycle cfg w (s\<lparr>isRefilling := True\<rparr>) = Some (n, q, e, s')"
    using refill_cycle_total by blast
  then have "\<not> isRefilling s'" by (rule refill_cycle_idle)
  then show "\<exists>n e s'. refillProxies cfg w s = Some (Cycle n e, s') \<and> \<not> isRefilling s'"
    using a c by (simp add: refillProxies_def)
qed

theorem refill_single_flight_and_idle_witness:
  "refillProxies small_config world_malformed (new_state\<lparr>isRefilling := True\<rparr>)
     = Some (NoOp, new_state\<lparr>isRefilling := True\<rparr>) \<and>
   (\<exists>n e s'. refillProxies small_config world_malformed new_state = Some (Cycle n e, s')
      \<and> \<not> isRefilling s')"
  using refill_single_flight_and_idle [of "new_state\<lparr>isRefilling := True\<rparr>" small_config world_malformed]
        refill_single_flight_and_idle [of new_state small_config world_malformed]
  by (simp add: small_config_def new_state_def)

text \<open>The three ways a cycle ends, each back at idle: target reached after one attempt,
  attempts exhausted, and an error thrown in the loop body at the first attempt.\<close>

lemma refill_endings:
  "map_option (\<lambda>(r, s). (r, length (availableProxies s), isRefilling s))
     (refillProxies small_config world_two_valid new_state) = Some (Cycle 1 None, 2, False)"
  "map_option (\<lambda>(r, s). (r, length (availableProxies s), isRefilling s))
     (refillProxies small_config world_down new_state) = Some (Cycle 20 None, 0, False)"
  "map_option (\<lambda>(r, s). (r, length (availableProxies s), isRefilling s))
     (refillProxies small_config world_malformed new_state) = Some (Cycle 1 (Some TypeError), 0, False)"
  by code_simp+

subsection \<open>Degrade and stop\<close>

lemma asked_below_target:
  assumes "length (availableProxies s) < targetCount cfg"
  shows "requestCount cfg (nat (max (int (batchSize cfg))
           ((int (targetCount cfg) - int (length (availableProxies s))) * 2)))
         = max (batchSize cfg) (2 * (targetCount cfg - length (availableProxies s)))"
proof -
  let ?d = "targetCount cfg - length (availableProxies s)"
  have d: "int (targetCount cfg) - int (length (availableProxies s)) = int ?d"
    using assms by simp
  have "int ?d * 2 = int (2 * ?d)" by simp
  then have "max (int (batchSize cfg)) (int ?d * 2) = int (max (batchSize cfg) (2 * ?d))"
    by (simp only: of_nat_max)
  then have "nat (max (int (batchSize cfg)) (int ?d * 2)) = max (batchSize cfg) (2 * ?d)"
    by (simp only: nat_int)
  moreover have "max (batchSize cfg) (2 * ?d) \<noteq> 0" using assms by simp
  ultimately show ?thesis unfolding d by (simp add: requestCount_def)
qed




text \<open>
  Every one of these attempts reads the answer to its request: if the answers are empty
  before attempt \<open>k\<close> and the answer at attempt \<open>k\<close> is one that \<^verbatim>\<open>getProxiesFromProvider\<close>
  returns as \<^verbatim>\<open>undefined\<close>, the cycle is abandoned at attempt \<open>k\<close>, after \<open>k\<close> requests.
\<close>

lemma refill_loop_reads_answer:
  assumes below: "length (availableProxies s) < targetCount cfg"
    and k: "k \<le> maxRefillAttempts cfg"
    and empty: "\<And>j n. j < k \<Longrightarrow> getProxiesFromProvider (fetch w j n) = JArr []"
    and bad: "\<And>n. getProxiesFromProvider (fetch w k n) = Undefined"
  shows "a < k \<Longrightarrow>
         refill_loop cfg w a q s =
           Some (k,
                 q @ map (\<lambda>j. (j, max (batchSize cfg)
                                      (2 * (targetCount cfg - length (availableProxies s)))))
                        [Suc a..<Suc k],
                 Some TypeError, s)"
proof (induction "k - Suc a" arbitrary: a q)
  case 0
  let ?asked = "max (batchSize cfg) (2 * (targetCount cfg - length (availableProxies s)))"
  have asked: "requestCount cfg (nat (max (int (batchSize cfg))
                 (int (targetCount cfg) * 2 - int (length (availableProxies s)) * 2))) = ?asked"
    using asked_below_target [OF below] by (simp add: left_diff_distrib)
  have e: "Suc a = k" using 0 by simp
  then have lt: "a < maxRefillAttempts cfg" using k by simp
  have u: "[Suc a..<Suc k] = [k]" using e by simp
  show ?case
    unfolding u using below lt e bad
    by (subst refill_loop.simps) (simp add: Let_def asked)
next
  case (Suc d)
  let ?asked = "max (batchSize cfg) (2 * (targetCount cfg - length (availableProxies s)))"
  have asked: "requestCount cfg (nat (max (int (batchSize cfg))
                 (int (targetCount cfg) * 2 - int (length (availableProxies s)) * 2))) = ?asked"
    using asked_below_target [OF below] by (simp add: left_diff_distrib)
  have d: "d = k - Suc (Suc a)" and lt: "Suc a < k" using Suc.hyps(2) by arith+
  then have ltm: "a < maxRefillAttempts cfg" using k by simp
  have u: "[Suc a..<Suc k] = Suc a # [Suc (Suc a)..<Suc k]"
    using lt by (simp add: upt_conv_Cons del: upt_Suc)
  have "refill_loop cfg w a q s = refill_loop cfg w (Suc a) (q @ [(Suc a, ?asked)]) s"
    using below ltm empty [OF lt]
    by (subst refill_loop.simps) (simp add: Let_def asked)
  then show ?case
    using Suc.hyps(1) [OF d lt, of "q @ [(Suc a, ?asked)]"] unfolding u by simp
qed

lemma refill_reads_every_answer:
  assumes "length (availableProxies s) < targetCount cfg"
    and "\<not> isRefilling s"
    and "0 < k" and "k \<le> maxRefillAttempts cfg"
    and "\<And>j n. j < k \<Longrightarrow> getProxiesFromProvider (fetch w j n) = JArr []"
    and "\<And>n. getProxiesFromProvider (fetch w k n) = Undefined"
    and "useCache cfg \<longrightarrow>
         cached_scan cfg (scan_now w)
           (int (targetCount cfg) - int (length (availableProxies s))) (proxyCache s) [] = []"
  shows "refillProxies cfg w s = Some (Cycle k (Some TypeError), s) \<and>
         refill_requests cfg w s =
           Some (map (\<lambda>j. (j, max (batchSize cfg)
                                 (2 * (targetCount cfg - length (availableProxies s)))))
                     [1..<Suc k])"
proof -
  let ?s0 = "s\<lparr>isRefilling := True\<rparr>"
  let ?n = "int (targetCount cfg) - int (length (availableProxies s))"
  let ?reqs = "map (\<lambda>j. (j, max (batchSize cfg)
                                 (2 * (targetCount cfg - length (availableProxies s)))))
                     [1..<Suc k]"
  have pre: "(if useCache cfg \<and> length (proxyCache s) > 0
              then tryUsingCachedProxies cfg w ?n ?s0 else Some ?s0) = Some ?s0"
    using assms(7) by (simp add: tryUsingCachedProxies_def)
  have "refill_loop cfg w 0 [] ?s0 = Some (k, ?reqs, Some TypeError, ?s0)"
    using refill_loop_reads_answer [of ?s0 cfg k w 0 "[]"] assms(1,3,4,5,6) by simp
  then have c: "refill_cycle cfg w ?s0
                  = Some (k, ?reqs, Some TypeError, ?s0\<lparr>isRefilling := False\<rparr>)"
    using pre by (simp add: refill_cycle_def Let_def)
  have same: "?s0\<lparr>isRefilling := False\<rparr> = s" using assms(2) by simp
  show ?thesis
    using c same assms(2) by (simp add: refillProxies_def refill_requests_def)
qed

text \<open>With a listing service that answers, the requests stop when the target is reached:
  one request for the first fill of two, none beyond it.\<close>

lemma refill_requests_until_target:
  "refill_requests small_config world_two_valid new_state = Some [(1, 20)]"
  "refill_requests small_config world_malformed new_state = Some [(1, 20)]"
  "refill_requests small_config world_down (new_state\<lparr>isRefilling := True\<rparr>) = Some []"
  by code_simp+

subsection \<open>Round robin\<close>

lemma js_index_nth: "i < length xs \<Longrightarrow> js_index xs i = Some (xs ! i)"
  by (induction xs i rule: js_index.induct) auto

lemma js_index_past: "length xs \<le> i \<Longrightarrow> js_index xs i = None"
  by (induction xs i rule: js_index.induct) auto

lemma getProxy_times_from:
  assumes "availableProxies s \<noteq> []" and "currentIndex s < length (availableProxies s)"
  shows "getProxy_times n s =
           (map (\<lambda>k. Some (availableProxies s ! ((currentIndex s + k) mod length (availableProxies s)))) [0..<n],
            s\<lparr>currentIndex := (currentIndex s + n) mod length (availableProxies s)\<rparr>)"
  using assms
proof (induction n arbitrary: s)
  case 0
  then show ?case by simp
next
  case (Suc n)
  let ?pool = "availableProxies s"
  let ?N = "length ?pool"
  let ?s1 = "s\<lparr>currentIndex := (currentIndex s + 1) mod ?N\<rparr>"
  have g: "getProxy s = (Some (?pool ! currentIndex s), ?s1)"
    using Suc.prems by (simp add: getProxy_def js_index_nth)
  have N: "0 < ?N" using Suc.prems by simp
  have ih: "getProxy_times n ?s1 =
           (map (\<lambda>k. Some (?pool ! (((currentIndex s + 1) mod ?N + k) mod ?N))) [0..<n],
            ?s1\<lparr>currentIndex := ((currentIndex s + 1) mod ?N + n) mod ?N\<rparr>)"
    using Suc.IH [of ?s1] Suc.prems N by simp
  have m: "\<And>k. (Suc (currentIndex s) mod ?N + k) mod ?N = Suc (currentIndex s + k) mod ?N"
    by (simp add: mod_add_left_eq)
  have u: "[0..<Suc n] = 0 # map Suc [0..<n]"
    by (simp add: upt_conv_Cons map_Suc_upt del: upt_Suc)
  show ?case
    unfolding u using g ih Suc.prems(2)
    by (simp add: m comp_def del: upt_Suc)
qed

lemma rotate_by_index:
  assumes "xs \<noteq> []"
  shows "map (\<lambda>k. xs ! ((c + k) mod length xs)) [0..<length xs] = rotate c xs"
  by (rule nth_equalityI) (simp_all add: nth_rotate)

lemma round_robin_from_cursor:
  "availableProxies s \<noteq> [] \<and> currentIndex s < length (availableProxies s) \<Longrightarrow>
      fst (getProxy_times (length (availableProxies s)) s)
        = map Some (rotate (currentIndex s) (availableProxies s)) \<and>
      snd (getProxy_times (length (availableProxies s)) s) = s \<and>
      fst (getProxy (snd (getProxy_times (length (availableProxies s)) s)))
        = Some (availableProxies s ! currentIndex s) \<and>
      fst (getProxy s) = Some (availableProxies s ! currentIndex s)"
proof (intro conjI)
  assume a: "availableProxies s \<noteq> [] \<and> currentIndex s < length (availableProxies s)"
  let ?pool = "availableProxies s"
  have t: "getProxy_times (length ?pool) s =
     (map (\<lambda>k. Some (?pool ! ((currentIndex s + k) mod length ?pool))) [0..<length ?pool],
      s\<lparr>currentIndex := (currentIndex s + length ?pool) mod length ?pool\<rparr>)"
    using getProxy_times_from a by blast
  have r: "map (\<lambda>k. Some (?pool ! ((currentIndex s + k) mod length ?pool))) [0..<length ?pool]
            = map Some (rotate (currentIndex s) ?pool)"
    using rotate_by_index [of ?pool "currentIndex s"] a
    by (metis (no_types, lifting) map_map comp_def map_eq_conv)
  show "fst (getProxy_times (length ?pool) s) = map Some (rotate (currentIndex s) ?pool)"
    using t r by simp
  show again: "snd (getProxy_times (length ?pool) s) = s" using t a by simp
  show fst1: "fst (getProxy s) = Some (?pool ! currentIndex s)"
    using a by (simp add: getProxy_def js_index_nth)
  show "fst (getProxy (snd (getProxy_times (length ?pool) s))) = Some (?pool ! currentIndex s)"
    using again fst1 by simp
qed

text \<open>
  C3, as the specification states it, fails where the cursor is not at the start. In the
  pool that the admission of three candidates and one \<^verbatim>\<open>getProxy\<close> call leave, the next
  three calls return the second, the third and the first member, not the members in
  insertion order, and the fourth returns the second member, not the first.
\<close>

theorem round_robin_counterexample:
  "availableProxies second_turn \<noteq> [] \<and>
   fst (getProxy_times (length (availableProxies second_turn)) second_turn)
     \<noteq> map Some (availableProxies second_turn) \<and>
   fst (getProxy (snd (getProxy_times (length (availableProxies second_turn)) second_turn)))
     \<noteq> Some (hd (availableProxies second_turn))"
  by code_simp

text \<open>The state of the counterexample is reached from a new pool by two calls.\<close>

lemma second_turn_reached:
  "run_ops three_attempts
     [Admit 0 [(''1.1.1.1:80'', True), (''2.2.2.2:80'', True), (''3.3.3.3:80'', True)], Get]
     new_state = Some second_turn"
  by (simp add: second_turn_def)

text \<open>
  C3, amended. On an empty pool \<^verbatim>\<open>getProxy\<close> returns absent and changes nothing. On a
  pool of \<open>N > 0\<close> members with the cursor inside it (as in every reachable state), \<open>N\<close>
  calls in a row with no mutation between them return every member exactly once, in
  insertion order read cyclically from the member at the cursor, and leave the state as
  it was, so that call \<open>N + 1\<close> repeats the first of these results. With the cursor at the
  start, as in a fresh pool, the \<open>N\<close> results are the pool itself in insertion order and
  call \<open>N + 1\<close> returns the first member again.
\<close>

theorem round_robin:
  "(availableProxies s = [] \<longrightarrow> getProxy s = (None, s)) \<and>
   (availableProxies s \<noteq> [] \<and> currentIndex s < length (availableProxies s) \<longrightarrow>
      fst (getProxy_times (length (availableProxies s)) s)
        = map Some (rotate (currentIndex s) (availableProxies s)) \<and>
      snd (getProxy_times (length (availableProxies s)) s) = s \<and>
      fst (getProxy (snd (getProxy_times (length (availableProxies s)) s)))
        = fst (getProxy s)) \<and>
   (availableProxies s \<noteq> [] \<and> currentIndex s = 0 \<longrightarrow>
      fst (getProxy_times (length (availableProxies s)) s) = map Some (availableProxies s) \<and>
      fst (getProxy (snd (getProxy_times (length (availableProxies s)) s)))
        = Some (hd (availableProxies s)))"
proof (intro conjI impI)
  assume "availableProxies s = []"
  then show "getProxy s = (None, s)" by (simp add: getProxy_def)
next
  assume a: "availableProxies s \<noteq> [] \<and> currentIndex s < length (availableProxies s)"
  note f = round_robin_from_cursor [OF a]
  show "fst (getProxy_times (length (availableProxies s)) s)
        = map Some (rotate (currentIndex s) (availableProxies s))" using f by blast
  show "snd (getProxy_times (length (availableProxies s)) s) = s" using f by blast
  show "fst (getProxy (snd (getProxy_times (length (availableProxies s)) s))) = fst (getProxy s)"
    using f by simp
next
  assume a: "availableProxies s \<noteq> [] \<and> currentIndex s = 0"
  then have a': "availableProxies s \<noteq> [] \<and> currentIndex s < length (availableProxies s)" by simp
  note f = round_robin_from_cursor [OF a']
  show "fst (getProxy_times (length (availableProxies s)) s) = map Some (availableProxies s)"
    using f a by simp
  show "fst (getProxy (snd (getProxy_times (length (availableProxies s)) s)))
        = Some (hd (availableProxies s))"
    using f a by (simp add: hd_conv_nth)
qed

theorem round_robin_witness:
  "getProxy new_state = (None, new_state) \<and>
   fst (getProxy_times 3 pool_of_three)
     = [Some (member ''2.2.2.2'' ''80''), Some (member ''3.3.3.3'' ''80''), Some (member ''1.1.1.1'' ''80'')] \<and>
   snd (getProxy_times 3 pool_of_three) = pool_of_three \<and>
   fst (getProxy (snd (getProxy_times 3 pool_of_three))) = Some (member ''2.2.2.2'' ''80'') \<and>
   fst (getProxy_times 3 (pool_of_three\<lparr>currentIndex := 0\<rparr>))
     = [Some (member ''1.1.1.1'' ''80''), Some (member ''2.2.2.2'' ''80''), Some (member ''3.3.3.3'' ''80'')] \<and>
   fst (getProxy (snd (getProxy_times 3 (pool_of_three\<lparr>currentIndex := 0\<rparr>))))
     = Some (member ''1.1.1.1'' ''80'')"
proof -
  let ?z = "pool_of_three\<lparr>currentIndex := 0\<rparr>"
  have e: "getProxy new_state = (None, new_state)"
    using round_robin [of new_state] by (simp add: new_state_def)
  have n: "length (availableProxies pool_of_three) = 3" "length (availableProxies ?z) = 3"
    by (simp_all add: pool_of_three_def)
  have h: "availableProxies pool_of_three \<noteq> [] \<and>
           currentIndex pool_of_three < length (availableProxies pool_of_three)"
    by (simp add: pool_of_three_def)
  have h0: "availableProxies ?z \<noteq> [] \<and> currentIndex ?z = 0"
    by (simp add: pool_of_three_def)
  have r: "fst (getProxy_times 3 pool_of_three)
             = map Some (rotate (currentIndex pool_of_three) (availableProxies pool_of_three)) \<and>
           snd (getProxy_times 3 pool_of_three) = pool_of_three \<and>
           fst (getProxy (snd (getProxy_times 3 pool_of_three))) = fst (getProxy pool_of_three)"
    using round_robin [of pool_of_three] h unfolding n by blast
  have r0: "fst (getProxy_times 3 ?z) = map Some (availableProxies ?z) \<and>
            fst (getProxy (snd (getProxy_times 3 ?z))) = Some (hd (availableProxies ?z))"
    using round_robin [of ?z] h0 unfolding n by blast
  have v: "rotate (currentIndex pool_of_three) (availableProxies pool_of_three)
             = [member ''2.2.2.2'' ''80'', member ''3.3.3.3'' ''80'', member ''1.1.1.1'' ''80'']"
          "fst (getProxy pool_of_three) = Some (member ''2.2.2.2'' ''80'')"
          "availableProxies ?z
             = [member ''1.1.1.1'' ''80'', member ''2.2.2.2'' ''80'', member ''3.3.3.3'' ''80'']"
    by (simp_all add: pool_of_three_def getProxy_def)
  show ?thesis using e r r0 v(2) unfolding v(1,3) by simp
qed

subsection \<open>Removal\<close>

lemma filter_one_out:
  "distinct (map f xs) \<Longrightarrow> k \<in> set (map f xs) \<Longrightarrow>
   Suc (length (filter (\<lambda>x. f x \<noteq> k) xs)) = length xs"
proof (induction xs)
  case Nil
  then show ?case by simp
next
  case (Cons x xs)
  show ?case
  proof (cases "f x = k")
    case True
    then have "k \<notin> set (map f xs)" using Cons.prems(1) by auto
    then have "filter (\<lambda>x. f x \<noteq> k) xs = xs" by (auto simp: filter_id_conv)
    then show ?thesis using True by simp
  next
    case False
    then show ?thesis using Cons by auto
  qed
qed

lemma filter_none_out:
  "k \<notin> set (map f xs) \<Longrightarrow> filter (\<lambda>x. f x \<noteq> k) xs = xs"
  by (auto simp: filter_id_conv)

lemma key_pred: "(\<not> (ip q = Some i \<and> port q = Some p)) = ((ip q, port q) \<noteq> (Some i, Some p))"
  by auto

lemma checkAndRefill_start_pool [simp]:
  "availableProxies (checkAndRefill_start cfg s) = availableProxies s"
  "currentIndex (checkAndRefill_start cfg s) = currentIndex s"
  "proxyCache (checkAndRefill_start cfg s) = proxyCache s"
  by (simp_all add: checkAndRefill_start_def)

lemma removeProxy_pool:
  "availableProxies (snd (removeProxy cfg now i p s))
     = filter (\<lambda>q. (ip q, port q) \<noteq> (Some i, Some p)) (availableProxies s)"
  by (simp add: removeProxy_def Let_def key_pred)

lemma removeProxy_result:
  "fst (removeProxy cfg now i p s)
     = (length (filter (\<lambda>q. (ip q, port q) \<noteq> (Some i, Some p)) (availableProxies s))
          < length (availableProxies s))"
  by (simp add: removeProxy_def Let_def key_pred)

lemma removeProxy_cursor:
  "availableProxies (snd (removeProxy cfg now i p s)) \<noteq> [] \<Longrightarrow>
   currentIndex (snd (removeProxy cfg now i p s)) < length (availableProxies (snd (removeProxy cfg now i p s)))"
  by (auto simp: removeProxy_def Let_def key_pred)

lemma removeProxy_cursor_eq:
  "currentIndex (snd (removeProxy cfg now i p s)) =
     (if length (filter (\<lambda>q. (ip q, port q) \<noteq> (Some i, Some p)) (availableProxies s)) \<le> currentIndex s
         \<and> filter (\<lambda>q. (ip q, port q) \<noteq> (Some i, Some p)) (availableProxies s) \<noteq> []
      then 0 else currentIndex s)"
proof (cases "find (\<lambda>q. ip q = Some i \<and> port q = Some p) (availableProxies s) \<noteq> None \<and> useCache cfg")
  case True
  then show ?thesis by (auto simp: removeProxy_def Let_def checkAndRefill_start_def)
next
  case False
  then show ?thesis by (auto simp: removeProxy_def Let_def checkAndRefill_start_def)
qed

lemma removeProxy_cursor_kept:
  "availableProxies (snd (removeProxy cfg now i p s)) = [] \<Longrightarrow>
   currentIndex (snd (removeProxy cfg now i p s)) = currentIndex s"
  by (simp add: removeProxy_cursor_eq removeProxy_pool)

lemma removeProxy_unique:
  "unique_pool (availableProxies s) \<Longrightarrow> unique_pool (availableProxies (snd (removeProxy cfg now i p s)))"
  by (simp add: removeProxy_pool unique_pool_def distinct_map_filter)

lemma removeProxy_member:
  assumes "unique_pool (availableProxies s)"
    and "in_pool (availableProxies s) (Some h) (Some p)"
  shows "Suc (length (filter (\<lambda>q. (ip q, port q) \<noteq> (Some h, Some p)) (availableProxies s)))
           = length (availableProxies s)"
  using filter_one_out [of "\<lambda>q. (ip q, port q)" "availableProxies s" "(Some h, Some p)"] assms
  by (simp add: unique_pool_def in_pool_iff)

lemma removeProxy_stranger:
  assumes "\<not> in_pool (availableProxies s) (Some h) (Some p)"
  shows "filter (\<lambda>q. (ip q, port q) \<noteq> (Some h, Some p)) (availableProxies s) = availableProxies s"
  using filter_none_out [of "(Some h, Some p)" "\<lambda>q. (ip q, port q)" "availableProxies s"] assms
  by (simp add: in_pool_iff)

text \<open>
  C6. In a pool without duplicates, \<^verbatim>\<open>removeProxy(h, p)\<close> on a member \<open>(h, p)\<close> returns
  \<^verbatim>\<open>true\<close>, leaves a pool exactly one shorter, and, if that pool is not empty, a
  cursor inside it; on \<open>(h, p)\<close> that is no member it returns \<^verbatim>\<open>false\<close> and leaves the
  pool as it was.
\<close>

theorem removal:
  assumes "unique_pool (availableProxies s)"
  shows "(in_pool (availableProxies s) (Some h) (Some p) \<longrightarrow>
            fst (removeProxy cfg now h p s) = True \<and>
            Suc (length (availableProxies (snd (removeProxy cfg now h p s))))
              = length (availableProxies s) \<and>
            (availableProxies (snd (removeProxy cfg now h p s)) \<noteq> [] \<longrightarrow>
               currentIndex (snd (removeProxy cfg now h p s))
                 < length (availableProxies (snd (removeProxy cfg now h p s))))) \<and>
         (\<not> in_pool (availableProxies s) (Some h) (Some p) \<longrightarrow>
            fst (removeProxy cfg now h p s) = False \<and>
            availableProxies (snd (removeProxy cfg now h p s)) = availableProxies s)"
proof (intro conjI impI)
  {
    assume m: "in_pool (availableProxies s) (Some h) (Some p)"
    note one = removeProxy_member [OF assms m]
    show "fst (removeProxy cfg now h p s) = True"
      using one by (simp add: removeProxy_result)
    show "Suc (length (availableProxies (snd (removeProxy cfg now h p s))))
            = length (availableProxies s)"
      using one by (simp add: removeProxy_pool)
  }
  {
    assume "availableProxies (snd (removeProxy cfg now h p s)) \<noteq> []"
    then show "currentIndex (snd (removeProxy cfg now h p s))
                 < length (availableProxies (snd (removeProxy cfg now h p s)))"
      by (rule removeProxy_cursor)
  }
  {
    assume m: "\<not> in_pool (availableProxies s) (Some h) (Some p)"
    note same = removeProxy_stranger [OF m]
    show "fst (removeProxy cfg now h p s) = False"
      using same by (simp add: removeProxy_result)
    show "availableProxies (snd (removeProxy cfg now h p s)) = availableProxies s"
      using same by (simp add: removeProxy_pool)
  }
qed

theorem removal_witness:
  "unique_pool (availableProxies pool_of_three) \<and>
   in_pool (availableProxies pool_of_three) (Some ''2.2.2.2'') (Some ''80'') \<and>
   fst (removeProxy small_config 7 ''2.2.2.2'' ''80'' pool_of_three) = True \<and>
   Suc (length (availableProxies (snd (removeProxy small_config 7 ''2.2.2.2'' ''80'' pool_of_three)))) = 3 \<and>
   currentIndex (snd (removeProxy small_config 7 ''2.2.2.2'' ''80'' pool_of_three)) < 2 \<and>
   \<not> in_pool (availableProxies pool_of_three) (Some ''2.2.2.2'') (Some ''8080'') \<and>
   fst (removeProxy small_config 7 ''2.2.2.2'' ''8080'' pool_of_three) = False \<and>
   availableProxies (snd (removeProxy small_config 7 ''2.2.2.2'' ''8080'' pool_of_three))
     = availableProxies pool_of_three"
proof -
  have u: "unique_pool (availableProxies pool_of_three)"
    by (simp add: unique_pool_def pool_of_three_def member_def)
  have m: "in_pool (availableProxies pool_of_three) (Some ''2.2.2.2'') (Some ''80'')"
          "\<not> in_pool (availableProxies pool_of_three) (Some ''2.2.2.2'') (Some ''8080'')"
    by (simp_all add: in_pool_def pool_of_three_def member_def)
  have n: "length (availableProxies pool_of_three) = 3" by (simp add: pool_of_three_def)
  have ne: "availableProxies (snd (removeProxy small_config 7 ''2.2.2.2'' ''80'' pool_of_three)) \<noteq> []"
    using removal [OF u, of "''2.2.2.2''" "''80''" small_config 7] m(1) n by auto
  show ?thesis
    using removal [OF u, of "''2.2.2.2''" "''80''" small_config 7]
          removal [OF u, of "''2.2.2.2''" "''8080''" small_config 7] u m n ne
    by auto
qed

subsection \<open>Uniqueness of the pool's members\<close>

lemma refillProxies_preserves:
  assumes add: "\<And>now rs s. P s \<Longrightarrow> P (addValidProxies cfg now rs s)"
    and flag: "\<And>s b. P s \<Longrightarrow> P (s\<lparr>isRefilling := b\<rparr>)"
    and P: "P s" and r: "refillProxies cfg w s = Some (res, s')"
  shows "P s'"
proof (cases "isRefilling s")
  case True
  then show ?thesis using P r by (simp add: refillProxies_def)
next
  case False
  then obtain n q e where "refill_cycle cfg w (s\<lparr>isRefilling := True\<rparr>) = Some (n, q, e, s')"
    using r by (auto simp: refillProxies_def split: option.splits)
  then show ?thesis
    using refill_cycle_inv [where P = P, OF add flag] flag [OF P] by blast
qed

lemma apply_op_preserves:
  assumes add: "\<And>now rs s. P s \<Longrightarrow> P (addValidProxies cfg now rs s)"
    and rem: "\<And>now i p s. P s \<Longrightarrow> P (snd (removeProxy cfg now i p s))"
    and flag: "\<And>s b. P s \<Longrightarrow> P (s\<lparr>isRefilling := b\<rparr>)"
    and get: "\<And>s. P s \<Longrightarrow> P (snd (getProxy s))"
    and cl: "\<And>now s. P s \<Longrightarrow> P (cleanupCache cfg now s)"
    and P: "P s" and r: "apply_op cfg x s = Some s'"
  shows "P s'"
proof (cases x)
  case (Admit now rs)
  then have "s' = addValidProxies cfg now rs s" using r by simp
  then show ?thesis using add [OF P] by simp
next
  case (Remove now i p)
  then have "s' = snd (removeProxy cfg now i p s)" using r by simp
  then show ?thesis using rem [OF P] by simp
next
  case (Refill w)
  then obtain res where "refillProxies cfg w s = Some (res, s')" using r by auto
  then show ?thesis using refillProxies_preserves [where P = P, OF add flag P] by blast
next
  case (Finish w)
  show ?thesis
  proof (cases "isRefilling s")
    case True
    then obtain n q e where "refill_cycle cfg w s = Some (n, q, e, s')"
      using r Finish by auto
    then show ?thesis using refill_cycle_inv [where P = P, OF add flag P] by blast
  next
    case False
    then show ?thesis using P r Finish by simp
  qed
next
  case Get
  then have "s' = snd (getProxy s)" using r by simp
  then show ?thesis using get [OF P] by simp
next
  case (Cleanup now)
  then have "s' = cleanupCache cfg now s" using r by simp
  then show ?thesis using cl [OF P] by simp
qed

lemma run_ops_preserves:
  assumes add: "\<And>now rs s. P s \<Longrightarrow> P (addValidProxies cfg now rs s)"
    and rem: "\<And>now i p s. P s \<Longrightarrow> P (snd (removeProxy cfg now i p s))"
    and flag: "\<And>s b. P s \<Longrightarrow> P (s\<lparr>isRefilling := b\<rparr>)"
    and get: "\<And>s. P s \<Longrightarrow> P (snd (getProxy s))"
    and cl: "\<And>now s. P s \<Longrightarrow> P (cleanupCache cfg now s)"
  shows "P s \<Longrightarrow> run_ops cfg ops s = Some s' \<Longrightarrow> P s'"
proof (induction ops arbitrary: s)
  case Nil
  then show ?case by simp
next
  case (Cons x xs)
  then obtain s1 where s1: "apply_op cfg x s = Some s1" and r: "run_ops cfg xs s1 = Some s'"
    by (auto split: option.splits)
  have "P s1"
    using apply_op_preserves [where P = P, OF add rem flag get cl Cons.prems(1) s1] .
  then show ?case using Cons.IH r by blast
qed

lemma getProxy_pool: "availableProxies (snd (getProxy s)) = availableProxies s"
  by (simp add: getProxy_def)

lemma cleanupCache_pool: "availableProxies (cleanupCache cfg now s) = availableProxies s"
  by (simp add: cleanupCache_def)

lemma run_ops_unique:
  assumes "unique_pool (availableProxies s)" and "run_ops cfg ops s = Some s'"
  shows "unique_pool (availableProxies s')"
proof -
  let ?P = "\<lambda>s. unique_pool (availableProxies s)"
  have add: "\<And>now rs s. ?P s \<Longrightarrow> ?P (addValidProxies cfg now rs s)"
    by (simp add: addValidProxies_pool pool_after_unique)
  have rem: "\<And>now i p s. ?P s \<Longrightarrow> ?P (snd (removeProxy cfg now i p s))"
    by (rule removeProxy_unique)
  have flag: "\<And>s b. ?P s \<Longrightarrow> ?P (s\<lparr>isRefilling := b\<rparr>)" by simp
  have get: "\<And>s. ?P s \<Longrightarrow> ?P (snd (getProxy s))"
    by (simp add: getProxy_pool)
  have cl: "\<And>now s. ?P s \<Longrightarrow> ?P (cleanupCache cfg now s)"
    by (simp add: cleanupCache_pool)
  show ?thesis
    using run_ops_preserves [where P = ?P, OF add rem flag get cl assms] .
qed

lemma apply_op_total:
  assumes "0 < concurrentRequests cfg"
  shows "\<exists>s'. apply_op cfg x s = Some s'"
proof (cases x)
  case (Refill w)
  obtain n q e s' where "refill_cycle cfg w (s\<lparr>isRefilling := True\<rparr>) = Some (n, q, e, s')"
    using refill_cycle_total [OF assms] by blast
  then show ?thesis using Refill by (simp add: refillProxies_def)
next
  case (Finish w)
  obtain n q e s' where "refill_cycle cfg w s = Some (n, q, e, s')"
    using refill_cycle_total [OF assms] by blast
  then show ?thesis using Finish by simp
qed simp_all

lemma run_ops_total: "0 < concurrentRequests cfg \<Longrightarrow> \<exists>s'. run_ops cfg ops s = Some s'"
proof (induction ops arbitrary: s)
  case Nil
  then show ?case by simp
next
  case (Cons x xs)
  obtain s1 where "apply_op cfg x s = Some s1" using apply_op_total [OF Cons.prems] by blast
  then show ?case using Cons.IH [OF Cons.prems, of s1] by simp
qed

lemma pool_after_same:
  "in_pool pool (fst (split_ip_port p)) (snd (split_ip_port p)) \<Longrightarrow>
   pool_after cfg now [(p, r)] pool = pool"
  by simp

text \<open>
  C2. From a pool in which no two members share \<open>(ip, port)\<close> (the empty pool of a new
  instance is one), every sequence of admissions, removals, refill cycles (their
  cache-first pass and acquisition loop admit through \<^verbatim>\<open>addValidProxies\<close>),
  \<^verbatim>\<open>getProxy\<close> calls and cache sweeps leaves a pool in which no two members share
  \<open>(ip, port)\<close>; with a positive chunk size every such sequence runs to its end. Admitting
  a candidate whose \<open>(ip, port)\<close> is in the pool leaves the pool as it was.
\<close>

theorem pool_members_unique:
  assumes "unique_pool (availableProxies s)"
  shows "(\<forall>s'. run_ops cfg ops s = Some s' \<longrightarrow> unique_pool (availableProxies s')) \<and>
         (0 < concurrentRequests cfg \<longrightarrow> (\<exists>s'. run_ops cfg ops s = Some s')) \<and>
         (in_pool (availableProxies s) (fst (split_ip_port p)) (snd (split_ip_port p)) \<longrightarrow>
            availableProxies (addValidProxies cfg now [(p, r)] s) = availableProxies s)"
proof (intro conjI allI impI)
  fix s'
  assume "run_ops cfg ops s = Some s'"
  then show "unique_pool (availableProxies s')" using run_ops_unique [OF assms] by blast
next
  assume "0 < concurrentRequests cfg"
  then show "\<exists>s'. run_ops cfg ops s = Some s'" by (rule run_ops_total)
next
  assume "in_pool (availableProxies s) (fst (split_ip_port p)) (snd (split_ip_port p))"
  then have "pool_after cfg now [(p, r)] (availableProxies s) = availableProxies s"
    by (rule pool_after_same)
  then show "availableProxies (addValidProxies cfg now [(p, r)] s) = availableProxies s"
    by (simp only: addValidProxies_pool)
qed

theorem pool_members_unique_witness:
  "unique_pool (availableProxies new_state) \<and>
   (\<exists>s'. run_ops small_config busy_day new_state = Some s' \<and> unique_pool (availableProxies s')) \<and>
   in_pool (availableProxies pool_of_three) (fst (split_ip_port ''1.1.1.1:80:again''))
                                            (snd (split_ip_port ''1.1.1.1:80:again'')) \<and>
   availableProxies (addValidProxies small_config 5 [(''1.1.1.1:80:again'', True)] pool_of_three)
     = availableProxies pool_of_three"
proof -
  have u0: "unique_pool (availableProxies new_state)"
    by (simp add: unique_pool_def new_state_def)
  have u3: "unique_pool (availableProxies pool_of_three)"
    by (simp add: unique_pool_def pool_of_three_def member_def)
  have m: "in_pool (availableProxies pool_of_three) (fst (split_ip_port ''1.1.1.1:80:again''))
                                            (snd (split_ip_port ''1.1.1.1:80:again''))"
    by (simp add: in_pool_def pool_of_three_def member_def split_ip_port_def)
  have cr: "0 < concurrentRequests small_config" by (simp add: small_config_def)
  show ?thesis
    using pool_members_unique [OF u0, of small_config busy_day]
          pool_members_unique [OF u3, of small_config "[]" "''1.1.1.1:80:again''" 5 True]
          u0 m cr
    by blast
qed

lemma busy_day_pool:
  "map_option (\<lambda>s. map full (availableProxies s)) (run_ops small_config busy_day new_state)
     = Some [''http://1.1.1.1:80'', ''http://1.1.1.1:8080'']"
  by code_simp

subsection \<open>The constructor's defaults\<close>

lemma default_truthy: "name \<noteq> UseCache \<Longrightarrow> default_value name \<noteq> JNum 0"
  by (cases name) simp_all

text \<open>
  C10. For every option other than \<^verbatim>\<open>useCache\<close>, a falsy supplied value (\<^verbatim>\<open>0\<close>, the
  empty string, \<^verbatim>\<open>false\<close>, \<^verbatim>\<open>null\<close>, or none) is replaced by the documented default:
  \<^verbatim>\<open>targetCount: 0\<close> gives 20 and \<^verbatim>\<open>retryDelay: 0\<close> gives 1000. \<^verbatim>\<open>useCache: false\<close> is
  kept as given. So no option other than \<^verbatim>\<open>useCache\<close> is ever configured as \<^verbatim>\<open>0\<close>.
\<close>

theorem constructor_defaults:
  "(\<forall>name. name \<noteq> UseCache \<and> \<not> truthy (options name) \<longrightarrow>
       constructor_config options name = default_value name) \<and>
   (options TargetCount = JNum 0 \<longrightarrow> constructor_config options TargetCount = JNum 20) \<and>
   (options RetryDelay = JNum 0 \<longrightarrow> constructor_config options RetryDelay = JNum 1000) \<and>
   (options UseCache = JBool False \<longrightarrow> constructor_config options UseCache = JBool False) \<and>
   (\<forall>name. name \<noteq> UseCache \<longrightarrow> constructor_config options name \<noteq> JNum 0)"
proof (intro conjI allI impI)
  fix name
  assume "name \<noteq> UseCache \<and> \<not> truthy (options name)"
  then show "constructor_config options name = default_value name"
    by (simp add: constructor_config_def)
next
  assume "options TargetCount = JNum 0"
  then show "constructor_config options TargetCount = JNum 20"
    by (simp add: constructor_config_def)
next
  assume "options RetryDelay = JNum 0"
  then show "constructor_config options RetryDelay = JNum 1000"
    by (simp add: constructor_config_def)
next
  assume "options UseCache = JBool False"
  then show "constructor_config options UseCache = JBool False"
    by (simp add: constructor_config_def)
next
  fix name
  assume n: "name \<noteq> UseCache"
  show "constructor_config options name \<noteq> JNum 0"
  proof (cases "truthy (options name)")
    case True
    then have "options name \<noteq> JNum 0" by auto
    then show ?thesis using n True by (simp add: constructor_config_def)
  next
    case False
    then show ?thesis using n default_truthy [OF n] by (simp add: constructor_config_def)
  qed
qed

theorem constructor_defaults_witness:
  "constructor_config zero_options TargetCount = JNum 20 \<and>
   constructor_config zero_options RetryDelay = JNum 1000 \<and>
   constructor_config zero_options ProxyProtocol = JStr ''http'' \<and>
   constructor_config zero_options BatchSize = JNum 20 \<and>
   constructor_config zero_options UseCache = JBool False \<and>
   constructor_config zero_options MaxRefillAttempts \<noteq> JNum 0"
proof -
  have f: "\<not> truthy (zero_options ProxyProtocol)" "\<not> truthy (zero_options BatchSize)"
          "zero_options TargetCount = JNum 0" "zero_options RetryDelay = JNum 0"
          "zero_options UseCache = JBool False"
    by (simp_all add: zero_options_def)
  have d: "default_value ProxyProtocol = JStr ''http''" "default_value BatchSize = JNum 20"
    by simp_all
  have "ProxyProtocol \<noteq> UseCache" "BatchSize \<noteq> UseCache" "MaxRefillAttempts \<noteq> UseCache" by simp_all
  then show ?thesis
    using constructor_defaults [of zero_options] f d by metis
qed

text \<open>In the typed reading, every count of a constructed configuration is positive.\<close>

lemma new_config_positive:
  assumes "new_config options = Some cfg"
  shows "0 < targetCount cfg \<and> 0 < batchSize cfg \<and> 0 < concurrentRequests cfg \<and>
         0 < minThreshold cfg \<and> 0 < maxRefillAttempts cfg \<and> 0 < cacheExpiry cfg"
proof -
  have nz: "\<And>name. name \<noteq> UseCache \<Longrightarrow> constructor_config options name \<noteq> JNum 0"
  proof -
    fix name :: option_name
    assume n: "name \<noteq> UseCache"
    show "constructor_config options name \<noteq> JNum 0"
    proof (cases "truthy (options name)")
      case True
      then have "options name \<noteq> JNum 0" by auto
      then show ?thesis using n True by (simp add: constructor_config_def)
    next
      case False
      then show ?thesis using n default_truthy [OF n] by (simp add: constructor_config_def)
    qed
  qed
  have c: "\<And>v n. as_count v = Some n \<Longrightarrow> v \<noteq> JNum 0 \<Longrightarrow> 0 < n"
  proof -
    fix v n assume "as_count v = Some n" "v \<noteq> JNum 0"
    then show "0 < n" by (cases v) (auto split: if_splits)
  qed
  obtain tc bs cr mt pp ma ce where
    e: "as_count (constructor_config options TargetCount) = Some tc"
       "as_count (constructor_config options BatchSize) = Some bs"
       "as_count (constructor_config options ConcurrentRequests) = Some cr"
       "as_count (constructor_config options MinThreshold) = Some mt"
       "as_count (constructor_config options MaxRefillAttempts) = Some ma"
       "as_count (constructor_config options CacheExpiry) = Some ce"
    and cfg: "targetCount cfg = tc" "batchSize cfg = bs" "concurrentRequests cfg = cr"
       "minThreshold cfg = mt" "maxRefillAttempts cfg = ma" "cacheExpiry cfg = int ce"
    using assms
    by (auto simp: new_config_def typed_config_def split: option.splits)
  have "0 < tc" using c [OF e(1)] nz [of TargetCount] by simp
  moreover have "0 < bs" using c [OF e(2)] nz [of BatchSize] by simp
  moreover have "0 < cr" using c [OF e(3)] nz [of ConcurrentRequests] by simp
  moreover have "0 < mt" using c [OF e(4)] nz [of MinThreshold] by simp
  moreover have "0 < ma" using c [OF e(5)] nz [of MaxRefillAttempts] by simp
  moreover have "0 < ce" using c [OF e(6)] nz [of CacheExpiry] by simp
  ultimately show ?thesis using cfg by simp
qed

subsection \<open>The validator's verdict\<close>

lemma data_includes_iff:
  "data_includes d sub \<longleftrightarrow> (\<exists>s. d = JStr s \<and> (\<exists>u v. s = u @ sub @ v))"
  by (cases d) (simp_all add: str_includes_iff)

lemma testProxy_response:
  "testProxy (ProbeResponse status d) =
      (status = 200 \<and>
       (\<exists>s. d = JStr s \<and> ((\<exists>u v. s = u @ ''notion'' @ v) \<or> (\<exists>u v. s = u @ ''Notion'' @ v))))"
proof -
  have "truthy d \<and> is_string d \<and> (data_includes d ''notion'' \<or> data_includes d ''Notion'')
        \<longleftrightarrow> (\<exists>s. d = JStr s \<and> ((\<exists>u v. s = u @ ''notion'' @ v) \<or> (\<exists>u v. s = u @ ''Notion'' @ v)))"
  proof (cases d)
    case (JStr s)
    have "s = [] \<Longrightarrow> \<not> str_includes s ''notion'' \<and> \<not> str_includes s ''Notion''" by simp
    then show ?thesis using JStr by (auto simp: str_includes_iff)
  qed simp_all
  then show ?thesis by (simp add: testProxy_def)
qed

text \<open>
  C5, as the specification states it, fails: the code looks for the two spellings
  \<^verbatim>\<open>notion\<close> and \<^verbatim>\<open>Notion\<close>, not for the marker in any letter case. A status 200
  response with the body \<^verbatim>\<open>NOTION\<close> is judged invalid by \<^verbatim>\<open>testProxy\<close> and valid by the
  specification's rule.
\<close>

theorem validator_counterexample:
  "testProxy (ProbeResponse 200 (JStr ''NOTION'')) \<noteq> spec_verdict (ProbeResponse 200 (JStr ''NOTION''))"
  by code_simp

text \<open>
  C5, amended. \<^verbatim>\<open>testProxy\<close> reports valid if and only if the response status is
  exactly 200 and the body is a string that contains \<^verbatim>\<open>notion\<close> or \<^verbatim>\<open>Notion\<close> (these
  two spellings, matched exactly); a transport error or timeout, and a body that is not
  a string, give \<^verbatim>\<open>false\<close>.
\<close>

theorem validator_verdict:
  "testProxy ProbeError = False \<and>
   (\<forall>status d. testProxy (ProbeResponse status d) =
      (status = 200 \<and>
       (\<exists>s. d = JStr s \<and> ((\<exists>u v. s = u @ ''notion'' @ v) \<or> (\<exists>u v. s = u @ ''Notion'' @ v)))))"
  using testProxy_response by (simp add: testProxy_def)

text \<open>Whatever \<^verbatim>\<open>testProxy\<close> accepts, the specification's rule accepts too.\<close>

lemma to_lower_notion: "map to_lower ''notion'' = ''notion''" "map to_lower ''Notion'' = ''notion''"
  by code_simp+

lemma validator_sound: "testProxy r \<Longrightarrow> spec_verdict r"
proof (cases r)
  case ProbeError
  assume "testProxy r"
  then show ?thesis using ProbeError by (simp add: testProxy_def)
next
  case (ProbeResponse status d)
  assume "testProxy r"
  then obtain s u v where st: "status = 200" and d: "d = JStr s"
    and s: "s = u @ ''notion'' @ v \<or> s = u @ ''Notion'' @ v"
    using ProbeResponse testProxy_response by blast
  have "map to_lower s = map to_lower u @ ''notion'' @ map to_lower v"
    using s to_lower_notion by (metis map_append)
  then have "str_includes (map to_lower s) ''notion''" by (metis str_includes_iff)
  then show ?thesis using ProbeResponse st d by (simp add: spec_verdict_def to_lower_notion(1) del: list.map)
qed

subsection \<open>Reachable states\<close>

text \<open>
  Every state that a sequence of calls reaches from a new pool has a duplicate-free pool
  and a cursor inside it: the states that the round-robin and removal properties are
  about.
\<close>

lemma new_state_inv: "pool_inv new_state"
  by (simp add: pool_inv_def unique_pool_def cursor_ok_def new_state_def)

lemma addValidProxies_inv:
  assumes "pool_inv s"
  shows "pool_inv (addValidProxies cfg now rs s)"
proof -
  let ?s' = "addValidProxies cfg now rs s"
  have u: "unique_pool (availableProxies ?s')"
    using assms by (simp add: pool_inv_def addValidProxies_pool pool_after_unique)
  have l: "length (availableProxies s) \<le> length (availableProxies ?s')"
    by (simp add: addValidProxies_pool pool_after_mono)
  have "cursor_ok ?s'"
  proof (cases "availableProxies s = []")
    case True
    then have "currentIndex ?s' = 0" using assms by (simp add: pool_inv_def cursor_ok_def)
    then show ?thesis by (simp add: cursor_ok_def)
  next
    case False
    then have "currentIndex ?s' < length (availableProxies s)"
      using assms by (simp add: pool_inv_def cursor_ok_def)
    then have "currentIndex ?s' < length (availableProxies ?s')" using l by arith
    then show ?thesis by (auto simp: cursor_ok_def)
  qed
  then show ?thesis using u by (simp add: pool_inv_def)
qed

lemma flag_inv: "pool_inv s \<Longrightarrow> pool_inv (s\<lparr>isRefilling := b\<rparr>)"
  by (simp add: pool_inv_def cursor_ok_def)

lemma getProxy_inv: "pool_inv s \<Longrightarrow> pool_inv (snd (getProxy s))"
  by (cases "availableProxies s = []") (simp_all add: pool_inv_def cursor_ok_def getProxy_def)

lemma cleanupCache_inv: "pool_inv s \<Longrightarrow> pool_inv (cleanupCache cfg now s)"
  by (cases "useCache cfg") (simp_all add: pool_inv_def cursor_ok_def cleanupCache_def)

lemma removeProxy_inv:
  assumes "pool_inv s"
  shows "pool_inv (snd (removeProxy cfg now i p s))"
proof -
  let ?s' = "snd (removeProxy cfg now i p s)"
  have u: "unique_pool (availableProxies s)" and c: "cursor_ok s"
    using assms by (simp_all add: pool_inv_def)
  have u': "unique_pool (availableProxies ?s')" using u by (rule removeProxy_unique)
  have c': "cursor_ok ?s'"
  proof (cases "availableProxies ?s' = []")
    case False
    then show ?thesis using removeProxy_cursor [OF False] by (simp add: cursor_ok_def)
  next
    case True
    have "currentIndex s = 0"
    proof (cases "in_pool (availableProxies s) (Some i) (Some p)")
      case m: True
      have "Suc (length (availableProxies ?s')) = length (availableProxies s)"
        using removeProxy_member [OF u m] by (simp add: removeProxy_pool)
      then have "length (availableProxies s) = 1" using True by simp
      then show ?thesis using c by (auto simp: cursor_ok_def split: if_splits)
    next
      case m: False
      have "availableProxies ?s' = availableProxies s"
        using removeProxy_stranger [OF m] by (simp add: removeProxy_pool)
      then show ?thesis using c True by (simp add: cursor_ok_def)
    qed
    then have "currentIndex ?s' = 0" using removeProxy_cursor_kept [OF True] by simp
    then show ?thesis using True by (simp add: cursor_ok_def)
  qed
  show ?thesis using u' c' by (simp add: pool_inv_def)
qed

lemma reachable_inv:
  assumes "run_ops cfg ops new_state = Some s"
  shows "unique_pool (availableProxies s) \<and> cursor_ok s"
  using run_ops_preserves [where P = pool_inv, OF addValidProxies_inv removeProxy_inv flag_inv
          getProxy_inv cleanupCache_inv new_state_inv assms]
  by (simp add: pool_inv_def)

subsection \<open>Cache expiry\<close>

lemma lookup_expired:
  "cacheExpiry cfg \<le> now - T \<Longrightarrow> map_of c key = Some \<lparr>valid = v, timestamp = T\<rparr> \<Longrightarrow>
   cache_lookup cfg now c key = None"
  by (simp add: cache_lookup_def)

lemma lookup_fresh:
  "useCache cfg \<Longrightarrow> now - T < cacheExpiry cfg \<Longrightarrow> map_of c key = Some \<lparr>valid = v, timestamp = T\<rparr> \<Longrightarrow>
   cache_lookup cfg now c key = Some v"
  by (simp add: cache_lookup_def)

lemma candidate_verdict_expired:
  "cacheExpiry cfg \<le> now - T \<Longrightarrow> map_of c key = Some \<lparr>valid = v, timestamp = T\<rparr> \<Longrightarrow>
   candidate_verdict cfg c now outcome key = testProxy outcome"
  by (simp add: candidate_verdict_def lookup_expired)

lemma cached_scan_fresh:
  "key \<in> set (cached_scan cfg now n c acc) \<Longrightarrow>
   key \<in> set acc \<or> (\<exists>e. (key, e) \<in> set c \<and> now - timestamp e < cacheExpiry cfg \<and> valid e)"
proof (induction c arbitrary: acc)
  case Nil
  then show ?case by simp
next
  case (Cons x c)
  obtain k e where x: "x = (k, e)" by (cases x)
  show ?case
  proof (cases "now - timestamp e < cacheExpiry cfg \<and> valid e")
    case True
    show ?thesis
    proof (cases "int (length (acc @ [k])) \<ge> n")
      case stop: True
      then have "cached_scan cfg now n (x # c) acc = acc @ [k]"
        using True x by (simp add: Let_def)
      then show ?thesis using Cons.prems True x by auto
    next
      case False
      then have "cached_scan cfg now n (x # c) acc = cached_scan cfg now n c (acc @ [k])"
        using True x by (simp add: Let_def)
      then have "key \<in> set (acc @ [k]) \<or> (\<exists>e. (key, e) \<in> set c \<and> now - timestamp e < cacheExpiry cfg \<and> valid e)"
        using Cons.IH [of "acc @ [k]"] Cons.prems by simp
      then show ?thesis using True x by auto
    qed
  next
    case False
    then have "cached_scan cfg now n (x # c) acc = cached_scan cfg now n c acc"
      using x by auto
    then show ?thesis using Cons.IH [of acc] Cons.prems by auto
  qed
qed

lemma sweep_removes_older:
  "useCache cfg \<Longrightarrow> cacheExpiry cfg < now - timestamp e \<Longrightarrow>
   (key, e) \<notin> set (proxyCache (cleanupCache cfg now s))"
  by (simp add: cleanupCache_def)

lemma sweep_keeps_at_ttl:
  "now - timestamp e = cacheExpiry cfg \<Longrightarrow> (key, e) \<in> set (proxyCache s) \<Longrightarrow>
   (key, e) \<in> set (proxyCache (cleanupCache cfg now s))"
  by (simp add: cleanupCache_def)

text \<open>
  C4. An entry recorded at time \<open>T\<close> is treated as absent by every lookup at a time
  \<open>now\<close> with \<open>now - T \<ge> cacheExpiry\<close> (\<open>lookup_expired\<close>, \<open>cached_scan_fresh\<close>), and
  \<^verbatim>\<open>cleanupCache\<close> removes it when \<open>now - T > cacheExpiry\<close> (\<open>sweep_removes_older\<close>). At
  \<open>now - T = cacheExpiry\<close> exactly the sweep keeps the entry that the lookups already
  treat as expired: with a lifetime of 1000, an entry recorded at 0 is a miss for the
  lookup and for the scan at time 1000, is still in the cache after a sweep at time
  1000, and is gone after a sweep at time 1001.
\<close>

theorem sweep_misses_entry_at_ttl:
  "cache_lookup small_config 1000 (proxyCache stale_cache) ''1.1.1.1:8080'' = None \<and>
   cached_scan small_config 1000 1 (proxyCache stale_cache) [] = [] \<and>
   proxyCache (cleanupCache small_config 1000 stale_cache)
     = [(''1.1.1.1:8080'', \<lparr>valid = True, timestamp = 0\<rparr>)] \<and>
   proxyCache (cleanupCache small_config 1001 stale_cache) = []"
  by (simp add: cache_lookup_def cleanupCache_def stale_cache_def small_config_def new_state_def)

subsection \<open>What the provider client returns\<close>

lemma provider_transport_failure: "getProxiesFromProvider TransportFailure = JArr []"
  by (simp add: getProxiesFromProvider_def)

lemma provider_not_success:
  "get_prop d ''code'' \<noteq> Inr (JNum 200) \<Longrightarrow> getProxiesFromProvider (Response d) = JArr []"
  by (simp add: getProxiesFromProvider_def provider_body_def)

lemma provider_no_data:
  "get_prop d ''data'' = Inr Undefined \<or> get_prop d ''data'' = Inr Null \<Longrightarrow>
   getProxiesFromProvider (Response d) = JArr []"
  by (auto simp: getProxiesFromProvider_def provider_body_def)

lemma provider_well_formed:
  "getProxiesFromProvider (listing ps) = JArr (map JStr ps)"
  by (simp add: getProxiesFromProvider_def provider_body_def listing_def)

text \<open>
  C7. \<^verbatim>\<open>getProxiesFromProvider\<close> never throws, and returns \<^verbatim>\<open>[]\<close> on a transport
  failure, on a body whose \<^verbatim>\<open>code\<close> is not 200 and on a body without \<^verbatim>\<open>data\<close>
  (the lemmas above). It does not return an empty sequence for every malformed body: a
  body with \<^verbatim>\<open>code\<close> 200 is answered by its \<^verbatim>\<open>data.proxies\<close>, whatever that is. For
  \<^verbatim>\<open>{ "code": 200, "data": {} }\<close> the result is \<^verbatim>\<open>undefined\<close>, for a \<^verbatim>\<open>proxies\<close> that is
  a string the string, for an array of numbers that array; and on the first of these
  the caller's \<^verbatim>\<open>proxies.length\<close> throws, so the cycle is abandoned at its first
  attempt.
\<close>

theorem provider_returns_non_array:
  "getProxiesFromProvider (Response (JObj [(''code'', JNum 200), (''data'', JObj [])])) = Undefined \<and>
   getProxiesFromProvider (Response (JObj [(''code'', JNum 200),
       (''data'', JObj [(''count'', JNum 1), (''proxies'', JStr ''1.1.1.1:8080'')])])) = JStr ''1.1.1.1:8080'' \<and>
   getProxiesFromProvider (Response (JObj [(''code'', JNum 200),
       (''data'', JObj [(''count'', JNum 1), (''proxies'', JArr [JNum 8080])])])) = JArr [JNum 8080] \<and>
   map_option fst (refillProxies small_config world_malformed new_state) = Some (Cycle 1 (Some TypeError))"
  by code_simp

subsection \<open>The size of the pool after a cycle\<close>

lemma tryUsingCachedProxies_pool:
  assumes r: "tryUsingCachedProxies cfg w n s = Some s'"
  shows "availableProxies s' = availableProxies s \<or>
         (\<exists>now rs. availableProxies s' = pool_after cfg now rs (availableProxies s))"
proof -
  let ?cp = "cached_scan cfg (scan_now w) n (proxyCache s) []"
  show ?thesis
  proof (cases "length ?cp > 0")
    case False
    then have "s' = s" using r by (simp add: tryUsingCachedProxies_def Let_def)
    then show ?thesis by simp
  next
    case True
    then obtain rs where "s' = addValidProxies cfg (admit_now w 0) rs s"
      using r by (auto simp: tryUsingCachedProxies_def Let_def split: option.splits)
    then have "availableProxies s' = pool_after cfg (admit_now w 0) rs (availableProxies s)"
      by (simp add: addValidProxies_pool)
    then show ?thesis by blast
  qed
qed

lemma refill_loop_bounded:
  assumes "length (availableProxies s) \<le> b" and "targetCount cfg \<le> b"
    and "refill_loop cfg w a q s = Some (n, q', e, s')"
  shows "length (availableProxies s') \<le> b"
proof -
  let ?P = "\<lambda>s::pstate. length (availableProxies s) \<le> b"
  have step: "\<And>now rs (s::pstate). ?P s \<Longrightarrow> length (availableProxies s) < targetCount cfg \<Longrightarrow>
                 ?P (addValidProxies cfg now rs s)"
  proof -
    fix now rs and s :: pstate
    assume "length (availableProxies s) < targetCount cfg"
    then have "length (pool_after cfg now rs (availableProxies s)) \<le> targetCount cfg"
      by (rule pool_after_bounded)
    then show "?P (addValidProxies cfg now rs s)"
      using assms(2) by (simp add: addValidProxies_pool)
  qed
  show ?thesis using refill_loop_inv [where P = ?P, OF step assms(1) assms(3)] .
qed

lemma refill_cycle_pool_bound:
  assumes r: "refill_cycle cfg w s = Some (n, q, e, s')"
  shows "(length (availableProxies s) < targetCount cfg \<longrightarrow>
            length (availableProxies s') \<le> targetCount cfg) \<and>
         (targetCount cfg \<le> length (availableProxies s) \<longrightarrow>
            length (availableProxies s') \<le> Suc (length (availableProxies s)))"
proof -
  let ?n = "int (targetCount cfg) - int (length (availableProxies s))"
  let ?pre = "if useCache cfg \<and> length (proxyCache s) > 0
               then tryUsingCachedProxies cfg w ?n s else Some s"
  obtain s1 s2 where s1: "?pre = Some s1" and s2: "refill_loop cfg w 0 [] s1 = Some (n, q, e, s2)"
    and s': "s' = s2\<lparr>isRefilling := False\<rparr>"
    using r by (auto simp: refill_cycle_def Let_def split: option.splits)
  have p1: "availableProxies s1 = availableProxies s \<or>
            (\<exists>now rs. availableProxies s1 = pool_after cfg now rs (availableProxies s))"
    using s1 tryUsingCachedProxies_pool [of cfg w ?n s s1] by (auto split: if_splits)
  show ?thesis
  proof (intro conjI impI)
    assume lt: "length (availableProxies s) < targetCount cfg"
    have "length (availableProxies s1) \<le> targetCount cfg"
      using p1 lt pool_after_bounded [OF lt] by auto
    then have "length (availableProxies s2) \<le> targetCount cfg"
      using refill_loop_bounded [OF _ _ s2, of "targetCount cfg"] by simp
    then show "length (availableProxies s') \<le> targetCount cfg" using s' by simp
  next
    assume ge: "targetCount cfg \<le> length (availableProxies s)"
    have "length (availableProxies s1) \<le> Suc (length (availableProxies s))"
      using p1 pool_after_full [OF ge] by auto
    then have "length (availableProxies s2) \<le> Suc (length (availableProxies s))"
      using refill_loop_bounded [OF _ _ s2, of "Suc (length (availableProxies s))"] ge by simp
    then show "length (availableProxies s') \<le> Suc (length (availableProxies s))" using s' by simp
  qed
qed

lemma refill_bounded_from_below:
  assumes "length (availableProxies s) < targetCount cfg"
    and "refillProxies cfg w s = Some (r, s')"
  shows "length (availableProxies s') \<le> targetCount cfg"
proof (cases "isRefilling s")
  case True
  then show ?thesis using assms by (simp add: refillProxies_def)
next
  case False
  then obtain n q e where c: "refill_cycle cfg w (s\<lparr>isRefilling := True\<rparr>) = Some (n, q, e, s')"
    using assms(2) by (auto simp: refillProxies_def split: option.splits)
  show ?thesis using refill_cycle_pool_bound [OF c] assms(1) by simp
qed

lemma refill_overshoot_at_most_one:
  assumes "length (availableProxies s) = targetCount cfg"
    and "refillProxies cfg w s = Some (r, s')"
  shows "length (availableProxies s') \<le> Suc (targetCount cfg)"
proof (cases "isRefilling s")
  case True
  then show ?thesis using assms by (simp add: refillProxies_def)
next
  case False
  then obtain n q e where c: "refill_cycle cfg w (s\<lparr>isRefilling := True\<rparr>) = Some (n, q, e, s')"
    using assms(2) by (auto simp: refillProxies_def split: option.splits)
  show ?thesis using refill_cycle_pool_bound [OF c] assms(1) by simp
qed


end
